theory Spec2Isabelle
  imports Complex_Main
begin

section \<open>Tokens and offset descriptors\<close>

text \<open>
  The indent rule of \<^verbatim>\<open>linter.js\<close> keeps, for every position of the file, an
  offset descriptor \<^verbatim>\<open>{ offset, from, force }\<close> in a search tree keyed by token start
  positions.  A token is a JavaScript object; the side tables of the rule (\<^verbatim>\<open>WeakMap\<close>,
  \<^verbatim>\<open>WeakSet\<close>) are keyed by object identity, which the field \<open>tid\<close> stands for.
  The other fields are \<^verbatim>\<open>token.range[0]\<close>, \<^verbatim>\<open>token.range[1]\<close>,
  \<^verbatim>\<open>token.loc.start.line\<close> and \<^verbatim>\<open>token.loc.start.column\<close>.
  JavaScript numbers are modelled by exact integers and rationals.  The flag
  \<^verbatim>\<open>force\<close> is only ever read as \<^verbatim>\<open>!offsetInfo.force\<close>, so that an omitted
  argument and \<^verbatim>\<open>false\<close> are the one value \<open>False\<close>.
\<close>

record token =
  tid :: nat
  range0 :: int
  range1 :: int
  loc_start_line :: int
  loc_start_column :: int

record descriptor =
  offset :: rat
  fromToken :: "token option"
  force :: bool

datatype error = TypeError | RangeError | NonFinite

section \<open>The search tree\<close>

text \<open>
  \<^verbatim>\<open>BinarySearchTree\<close> wraps the persistent tree of the package
  \<^verbatim>\<open>functional-red-black-tree\<close>.  The package's tree is represented by the in-order
  sequence of its entries; \<open>rb_insert\<close>, \<open>rb_find\<close>, \<open>rb_update\<close>, \<open>rb_le\<close>,
  \<open>rb_ge\<close> and \<open>rb_remove\<close> are the package's operations on that sequence.
\<close>

type_synonym 'v rbTree = "(int \<times> 'v) list"

fun rb_insert :: "int \<Rightarrow> 'v \<Rightarrow> 'v rbTree \<Rightarrow> 'v rbTree" where
  "rb_insert k v [] = [(k, v)]"
| "rb_insert k v ((k', v') # t) =
     (if k \<le> k' then (k, v) # (k', v') # t else (k', v') # rb_insert k v t)"

fun rb_find :: "int \<Rightarrow> 'v rbTree \<Rightarrow> 'v option" where
  "rb_find k [] = None"
| "rb_find k ((k', v') # t) = (if k = k' then Some v' else rb_find k t)"

fun rb_update :: "int \<Rightarrow> 'v \<Rightarrow> 'v rbTree \<Rightarrow> 'v rbTree" where
  "rb_update k v [] = []"
| "rb_update k v ((k', v') # t) =
     (if k = k' then (k', v) # t else (k', v') # rb_update k v t)"

fun rb_le :: "int \<Rightarrow> 'v rbTree \<Rightarrow> (int \<times> 'v) option" where
  "rb_le k [] = None"
| "rb_le k ((k', v') # t) =
     (if k' \<le> k then (case rb_le k t of None \<Rightarrow> Some (k', v') | Some e \<Rightarrow> Some e)
      else rb_le k t)"

fun rb_ge :: "int \<Rightarrow> 'v rbTree \<Rightarrow> 'v rbTree" where
  "rb_ge k [] = []"
| "rb_ge k ((k', v') # t) = (if k \<le> k' then (k', v') # t else rb_ge k t)"

fun rb_remove :: "int \<Rightarrow> 'v rbTree \<Rightarrow> 'v rbTree" where
  "rb_remove k [] = []"
| "rb_remove k ((k', v') # t) = (if k = k' then t else (k', v') # rb_remove k t)"

text \<open>\<^verbatim>\<open>BinarySearchTree.insert\<close>: update the entry when the key is there, insert otherwise.\<close>

definition insert_bst :: "int \<Rightarrow> 'v \<Rightarrow> 'v rbTree \<Rightarrow> 'v rbTree" where
  "insert_bst key v t =
     (case rb_find key t of Some _ \<Rightarrow> rb_update key v t | None \<Rightarrow> rb_insert key v t)"

text \<open>
  \<^verbatim>\<open>BinarySearchTree.findLe\<close>: the entry with the largest key less than or equal to
  the given one, \<open>None\<close> for the documented "null if no such entry exists" (the package
  hands back an iterator without an entry there, whose key and value are undefined).
  No entry can be missing at a position \<open>p \<ge> 0\<close> of a storage that has the key 0.
\<close>

definition findLe :: "int \<Rightarrow> 'v rbTree \<Rightarrow> (int \<times> 'v) option" where
  "findLe key t = rb_le key t"

text \<open>
  \<^verbatim>\<open>BinarySearchTree.deleteRange\<close>.  The iterator walks the tree as it was when the
  loop began, while every visited key below \<open>end\<close> is removed from the current tree.
\<close>

fun deleteLoop :: "'v rbTree \<Rightarrow> int \<Rightarrow> 'v rbTree \<Rightarrow> 'v rbTree" where
  "deleteLoop [] end t = t"
| "deleteLoop ((k, v) # iterator) end t =
     (if k < end then deleteLoop iterator end (rb_remove k t) else t)"

definition deleteRange :: "int \<Rightarrow> int \<Rightarrow> 'v rbTree \<Rightarrow> 'v rbTree" where
  "deleteRange start end t = (if start = end then t else deleteLoop (rb_ge start t) end t)"

section \<open>Token information\<close>

text \<open>
  \<^verbatim>\<open>TokenInfo\<close> holds the source text and the map from line numbers to the first
  token of each line, taken here as its constructor built it.  \<open>js_slice\<close> is
  \<^verbatim>\<open>String.prototype.slice\<close> with two integer arguments: a negative index counts
  from the end, and both are clamped to the string.
\<close>

definition js_slice :: "string \<Rightarrow> int \<Rightarrow> int \<Rightarrow> string" where
  "js_slice text b e =
     (let n = int (length text);
          from = (if b < 0 then max (n + b) 0 else min b n);
          to = (if e < 0 then max (n + e) 0 else min e n)
      in take (nat (to - from)) (drop (nat from) text))"

record tokenInfo =
  sourceText :: string
  firstTokensByLineNumber :: "int \<rightharpoonup> token"

definition getFirstTokenOfLine :: "tokenInfo \<Rightarrow> token \<Rightarrow> token option" where
  "getFirstTokenOfLine ti tok = firstTokensByLineNumber ti (loc_start_line tok)"

definition isFirstTokenOfLine :: "tokenInfo \<Rightarrow> token \<Rightarrow> bool" where
  "isFirstTokenOfLine ti tok = (getFirstTokenOfLine ti tok = Some tok)"

definition getTokenIndent :: "tokenInfo \<Rightarrow> token \<Rightarrow> string" where
  "getTokenIndent ti tok =
     js_slice (sourceText ti) (range0 tok - loc_start_column tok) (range0 tok)"

section \<open>The offset storage\<close>

text \<open>
  The fields of \<^verbatim>\<open>OffsetStorage\<close>.  \<^verbatim>\<open>_lockedFirstTokens\<close> is an association list
  read with \<open>map_of\<close>, \<^verbatim>\<open>_desiredIndentCache\<close> a map and \<^verbatim>\<open>_ignoredTokens\<close> a set.
\<close>

record offsetStorage =
  st_tokenInfo :: tokenInfo
  st_indentSize :: int
  st_tree :: "descriptor rbTree"
  st_lockedFirstTokens :: "(token \<times> token) list"
  st_desiredIndentCache :: "token \<rightharpoonup> rat"
  st_ignoredTokens :: "token set"

definition OffsetStorage :: "tokenInfo \<Rightarrow> int \<Rightarrow> offsetStorage" where
  "OffsetStorage ti indentSize =
     \<lparr> st_tokenInfo = ti, st_indentSize = indentSize,
       st_tree = insert_bst 0 \<lparr> offset = 0, fromToken = None, force = False \<rparr> [],
       st_lockedFirstTokens = [], st_desiredIndentCache = Map.empty,
       st_ignoredTokens = {} \<rparr>"

text \<open>
  \<^verbatim>\<open>_getOffsetDescriptor\<close> reads \<^verbatim>\<open>.value\<close> of the entry found; with no entry at or
  below the token's start that read fails.
\<close>

definition getOffsetDescriptor :: "token \<Rightarrow> offsetStorage \<Rightarrow> error + descriptor" where
  "getOffsetDescriptor tok s =
     (case findLe (range0 tok) (st_tree s) of
        None \<Rightarrow> Inl TypeError
      | Some e \<Rightarrow> Inr (snd e))"

text \<open>
  \<^verbatim>\<open>setDesiredOffsets(range, fromToken, offset, force)\<close>.  The two reads
  (\<open>descriptorAfterRange\<close>, \<open>fromTokenDescriptor\<close>) come before any change of the tree,
  so a failing call leaves the storage as it was.
\<close>

definition fromTokenIsInRange :: "int \<times> int \<Rightarrow> token option \<Rightarrow> bool" where
  "fromTokenIsInRange rng fromTok =
     (case fromTok of
        None \<Rightarrow> False
      | Some f \<Rightarrow> fst rng \<le> range0 f \<and> range1 f \<le> snd rng)"

definition fromTokenDescriptorOf ::
  "int \<times> int \<Rightarrow> token option \<Rightarrow> offsetStorage \<Rightarrow> error + (token \<times> descriptor) option" where
  "fromTokenDescriptorOf rng fromTok s =
     (case fromTok of
        None \<Rightarrow> Inr None
      | Some f \<Rightarrow>
          if fromTokenIsInRange rng fromTok
          then (case getOffsetDescriptor f s of
                  Inl e \<Rightarrow> Inl e
                | Inr d \<Rightarrow> Inr (Some (f, d)))
          else Inr None)"

definition setDesiredOffsets ::
  "int \<times> int \<Rightarrow> token option \<Rightarrow> rat \<Rightarrow> bool \<Rightarrow> offsetStorage \<Rightarrow> error + offsetStorage" where
  "setDesiredOffsets rng fromTok off frc s =
     (let descriptorToInsert = \<lparr> offset = off, fromToken = fromTok, force = frc \<rparr> in
      case findLe (snd rng) (st_tree s) of
        None \<Rightarrow> Inl TypeError
      | Some after \<Rightarrow>
          (case fromTokenDescriptorOf rng fromTok s of
             Inl e \<Rightarrow> Inl e
           | Inr fromTokenDescriptor \<Rightarrow>
               let descriptorAfterRange = snd after;
                   t1 = deleteRange (fst rng + 1) (snd rng) (st_tree s);
                   t2 = insert_bst (fst rng) descriptorToInsert t1;
                   t3 = (case fromTokenDescriptor of
                           None \<Rightarrow> t2
                         | Some (f, d) \<Rightarrow>
                             insert_bst (range1 f) descriptorToInsert (insert_bst (range0 f) d t2))
               in Inr (s\<lparr> st_tree := insert_bst (snd rng) descriptorAfterRange t3 \<rparr>)))"

definition setDesiredOffset ::
  "token \<Rightarrow> token option \<Rightarrow> rat \<Rightarrow> offsetStorage \<Rightarrow> error + offsetStorage" where
  "setDesiredOffset tok fromTok off s =
     setDesiredOffsets (range0 tok, range1 tok) fromTok off False s"

definition matchIndentOf :: "token \<Rightarrow> token \<Rightarrow> offsetStorage \<Rightarrow> error + offsetStorage" where
  "matchIndentOf baseToken offsetToken s =
     setDesiredOffsets (range0 offsetToken, range1 offsetToken) (Some baseToken) 0 False s"

definition matchOffsetOf :: "token \<Rightarrow> token \<Rightarrow> offsetStorage \<Rightarrow> offsetStorage" where
  "matchOffsetOf baseToken offsetToken s =
     s\<lparr> st_lockedFirstTokens := (offsetToken, baseToken) # st_lockedFirstTokens s \<rparr>"

definition ignoreToken :: "token \<Rightarrow> offsetStorage \<Rightarrow> offsetStorage" where
  "ignoreToken tok s =
     (if isFirstTokenOfLine (st_tokenInfo s) tok
      then s\<lparr> st_ignoredTokens := insert tok (st_ignoredTokens s) \<rparr>
      else s)"

definition getFirstDependency :: "token \<Rightarrow> offsetStorage \<Rightarrow> error + token option" where
  "getFirstDependency tok s = map_sum id fromToken (getOffsetDescriptor tok s)"

text \<open>
  \<^verbatim>\<open>getDesiredIndent\<close> is recursive through the anchor of the descriptor and through
  the lock table, and nothing bounds the recursion: it is a partial function, \<open>None\<close>
  meaning that the call does not return.  A returned value comes with the storage whose
  cache holds it.  \<open>NonFinite\<close> marks a division by an indent size of zero, where
  JavaScript goes on with \<^verbatim>\<open>Infinity\<close> or \<^verbatim>\<open>NaN\<close>, which rationals do not have.
\<close>

definition cacheSet :: "token \<Rightarrow> rat \<Rightarrow> offsetStorage \<Rightarrow> offsetStorage" where
  "cacheSet tok v s = s\<lparr> st_desiredIndentCache := (st_desiredIndentCache s)(tok \<mapsto> v) \<rparr>"

definition collapsedOffset :: "descriptor \<Rightarrow> token \<Rightarrow> rat" where
  "collapsedOffset offsetInfo tok =
     (case fromToken offsetInfo of
        None \<Rightarrow> offset offsetInfo
      | Some f \<Rightarrow>
          if loc_start_line f = loc_start_line tok \<and> \<not> force offsetInfo then 0
          else offset offsetInfo)"

text \<open>
  What the locked branch and the descriptor branch do with the value \<open>r\<close> that the
  recursive call returned: compute the indent, store it in the cache, return it.
\<close>

definition lockedIndent ::
  "token \<Rightarrow> token \<Rightarrow> token \<Rightarrow> error + rat \<times> offsetStorage \<Rightarrow> error + rat \<times> offsetStorage" where
  "lockedIndent tok firstToken lineToken r =
     (case r of
        Inl e \<Rightarrow> Inl e
      | Inr (d, s') \<Rightarrow>
          if st_indentSize s' = 0 then Inl NonFinite
          else let v = d + of_int (loc_start_column firstToken - loc_start_column lineToken)
                           / of_int (st_indentSize s')
               in Inr (v, cacheSet tok v s'))"

definition offsetIndent ::
  "token \<Rightarrow> descriptor \<Rightarrow> error + rat \<times> offsetStorage \<Rightarrow> error + rat \<times> offsetStorage" where
  "offsetIndent tok offsetInfo r =
     (case r of
        Inl e \<Rightarrow> Inl e
      | Inr (d, s') \<Rightarrow>
          let v = collapsedOffset offsetInfo tok + d
          in Inr (v, cacheSet tok v s'))"

partial_function (option) getDesiredIndent ::
  "token \<Rightarrow> offsetStorage \<Rightarrow> (error + rat \<times> offsetStorage) option" where
  "getDesiredIndent tok s =
     (case st_desiredIndentCache s tok of
        Some v \<Rightarrow> Some (Inr (v, s))
      | None \<Rightarrow>
          if tok \<in> st_ignoredTokens s then
            (if st_indentSize s = 0 then Some (Inl NonFinite)
             else let v = of_nat (length (getTokenIndent (st_tokenInfo s) tok))
                          / of_int (st_indentSize s)
                  in Some (Inr (v, cacheSet tok v s)))
          else
            (case map_of (st_lockedFirstTokens s) tok of
               Some firstToken \<Rightarrow>
                 (case getFirstTokenOfLine (st_tokenInfo s) firstToken of
                    None \<Rightarrow> Some (Inl TypeError)
                  | Some lineToken \<Rightarrow>
                      Option.bind (getDesiredIndent lineToken s)
                        (\<lambda>r. Some (lockedIndent tok firstToken lineToken r)))
             | None \<Rightarrow>
                 (case getOffsetDescriptor tok s of
                    Inl e \<Rightarrow> Some (Inl e)
                  | Inr offsetInfo \<Rightarrow>
                      (case fromToken offsetInfo of
                         None \<Rightarrow> Some (offsetIndent tok offsetInfo (Inr (0, s)))
                       | Some f \<Rightarrow>
                           Option.bind (getDesiredIndent f s)
                             (\<lambda>r. Some (offsetIndent tok offsetInfo r))))))"

section \<open>Sequences of calls\<close>

text \<open>
  The public methods of \<^verbatim>\<open>OffsetStorage\<close> as operations, and a run of operations.
  A run stops at the first operation that throws or does not return.
\<close>

datatype operation =
    SetDesiredOffsets "int \<times> int" "token option" rat bool
  | SetDesiredOffset token "token option" rat
  | MatchIndentOf token token
  | MatchOffsetOf token token
  | IgnoreToken token
  | GetDesiredIndent token

fun perform :: "operation \<Rightarrow> offsetStorage \<Rightarrow> (error + offsetStorage) option" where
  "perform (SetDesiredOffsets rng fromTok off frc) s = Some (setDesiredOffsets rng fromTok off frc s)"
| "perform (SetDesiredOffset tok fromTok off) s = Some (setDesiredOffset tok fromTok off s)"
| "perform (MatchIndentOf baseToken offsetToken) s = Some (matchIndentOf baseToken offsetToken s)"
| "perform (MatchOffsetOf baseToken offsetToken) s = Some (Inr (matchOffsetOf baseToken offsetToken s))"
| "perform (IgnoreToken tok) s = Some (Inr (ignoreToken tok s))"
| "perform (GetDesiredIndent tok) s = map_option (map_sum id snd) (getDesiredIndent tok s)"

fun runOps :: "operation list \<Rightarrow> offsetStorage \<Rightarrow> (error + offsetStorage) option" where
  "runOps [] s = Some (Inr s)"
| "runOps (op # ops) s =
     (case perform op s of
        None \<Rightarrow> None
      | Some (Inl e) \<Rightarrow> Some (Inl e)
      | Some (Inr s') \<Rightarrow> runOps ops s')"

text \<open>The range that a declaration is made over; the other operations declare nothing.\<close>

fun declaredRange :: "operation \<Rightarrow> (int \<times> int) option" where
  "declaredRange (SetDesiredOffsets rng fromTok off frc) = Some rng"
| "declaredRange (SetDesiredOffset tok fromTok off) = Some (range0 tok, range1 tok)"
| "declaredRange (MatchIndentOf baseToken offsetToken) = Some (range0 offsetToken, range1 offsetToken)"
| "declaredRange (MatchOffsetOf baseToken offsetToken) = None"
| "declaredRange (IgnoreToken tok) = None"
| "declaredRange (GetDesiredIndent tok) = None"

fun declaredAnchor :: "operation \<Rightarrow> token option" where
  "declaredAnchor (SetDesiredOffsets rng fromTok off frc) = fromTok"
| "declaredAnchor (SetDesiredOffset tok fromTok off) = fromTok"
| "declaredAnchor (MatchIndentOf baseToken offsetToken) = Some baseToken"
| "declaredAnchor (MatchOffsetOf baseToken offsetToken) = None"
| "declaredAnchor (IgnoreToken tok) = None"
| "declaredAnchor (GetDesiredIndent tok) = None"

section \<open>Notions used in the statements\<close>

text \<open>The keys of the tree, read in order, strictly increase.\<close>

definition keysIncreasing :: "'v rbTree \<Rightarrow> bool" where
  "keysIncreasing t = sorted_wrt (<) (map fst t)"

text \<open>The descriptor that is active at a position: \<^verbatim>\<open>findLe(p).value\<close>.\<close>

definition descriptorAt :: "'v rbTree \<Rightarrow> int \<Rightarrow> 'v option" where
  "descriptorAt t p = map_option snd (findLe p t)"

text \<open>The value that \<^verbatim>\<open>getDesiredIndent\<close> returns, without the storage.\<close>

definition resolve :: "offsetStorage \<Rightarrow> token \<Rightarrow> (error + rat) option" where
  "resolve s tok = map_option (map_sum id fst) (getDesiredIndent tok s)"

text \<open>
  \<open>dependency s tok\<close> is the token on which \<^verbatim>\<open>getDesiredIndent(tok)\<close> calls itself:
  none for a cached or ignored token, the first token of the line of the lock's base for
  a locked token, and the anchor of the governing descriptor otherwise.
  \<open>resolutionChain s tok\<close> follows the dependencies from \<open>tok\<close>.
\<close>

definition dependency :: "offsetStorage \<Rightarrow> token \<Rightarrow> token option" where
  "dependency s tok =
     (case st_desiredIndentCache s tok of
        Some v \<Rightarrow> None
      | None \<Rightarrow>
          if tok \<in> st_ignoredTokens s then None
          else (case map_of (st_lockedFirstTokens s) tok of
                  Some firstToken \<Rightarrow> getFirstTokenOfLine (st_tokenInfo s) firstToken
                | None \<Rightarrow>
                    (case getOffsetDescriptor tok s of
                       Inl e \<Rightarrow> None
                     | Inr offsetInfo \<Rightarrow> fromToken offsetInfo)))"

fun resolutionChain :: "offsetStorage \<Rightarrow> token \<Rightarrow> nat \<Rightarrow> token option" where
  "resolutionChain s tok 0 = Some tok"
| "resolutionChain s tok (Suc n) =
     (case dependency s tok of
        None \<Rightarrow> None
      | Some u \<Rightarrow> resolutionChain s u n)"

text \<open>
  \<open>anchorChain s tok\<close> follows only the anchors of the governing descriptors, the chain
  "of descriptors' from-tokens".
\<close>

fun anchorChain :: "offsetStorage \<Rightarrow> token \<Rightarrow> nat \<Rightarrow> token option" where
  "anchorChain s tok 0 = Some tok"
| "anchorChain s tok (Suc n) =
     (case getOffsetDescriptor tok s of
        Inl e \<Rightarrow> None
      | Inr offsetInfo \<Rightarrow>
          (case fromToken offsetInfo of
             None \<Rightarrow> None
           | Some f \<Rightarrow> anchorChain s f n))"

definition neverRevisits :: "(nat \<Rightarrow> token option) \<Rightarrow> bool" where
  "neverRevisits chain = (\<forall>i j u. i < j \<and> chain i = Some u \<longrightarrow> chain j \<noteq> Some u)"

text \<open>
  The map from keys to descriptors that \<^verbatim>\<open>setDesiredOffsets\<close> leaves: the keys
  strictly inside the range are gone, the new descriptor sits at the start of the range,
  the anchor (when it lies in the range) keeps its descriptor \<open>d\<close> and the new one
  follows it, and \<open>tail\<close> sits at the end of the range.
\<close>

definition treeMapAfter ::
  "(int \<rightharpoonup> descriptor) \<Rightarrow> int \<times> int \<Rightarrow> descriptor \<Rightarrow> (token \<times> descriptor) option
     \<Rightarrow> descriptor \<Rightarrow> (int \<rightharpoonup> descriptor)" where
  "treeMapAfter m rng new fd tail =
     (let base = (\<lambda>k. if fst rng + 1 \<le> k \<and> k < snd rng then None else m k)(fst rng \<mapsto> new)
      in (case fd of
            None \<Rightarrow> base
          | Some (f, d) \<Rightarrow> base(range0 f \<mapsto> d, range1 f \<mapsto> new))
         (snd rng \<mapsto> tail))"

text \<open>
  What every run keeps for a token \<open>tok\<close> that no declaration covers: the keys of the
  tree increase, the initial descriptor governs \<open>tok\<close>, and the cache holds nothing or 0
  for \<open>tok\<close> unless \<open>tok\<close> is ignored or locked.
\<close>

definition uncovered :: "token \<Rightarrow> offsetStorage \<Rightarrow> bool" where
  "uncovered tok s \<longleftrightarrow>
     keysIncreasing (st_tree s)
   \<and> descriptorAt (st_tree s) (range0 tok) = Some \<lparr> offset = 0, fromToken = None, force = False \<rparr>
   \<and> (tok \<in> st_ignoredTokens s \<or> map_of (st_lockedFirstTokens s) tok \<noteq> None
        \<or> st_desiredIndentCache s tok = None \<or> st_desiredIndentCache s tok = Some 0)"

text \<open>A result of \<^verbatim>\<open>getDesiredIndent\<close> with the tree of the returned storage replaced.\<close>

definition withTree :: "descriptor rbTree \<Rightarrow> error + rat \<times> offsetStorage \<Rightarrow> error + rat \<times> offsetStorage" where
  "withTree t r = map_sum id (\<lambda>(v, x). (v, x\<lparr> st_tree := t \<rparr>)) r"

section \<open>The reporting pass\<close>

text \<open>
  \<^verbatim>\<open>String.prototype.repeat\<close> truncates its count towards zero and throws a
  \<^verbatim>\<open>RangeError\<close> for a negative one.
\<close>

definition js_repeat :: "char \<Rightarrow> rat \<Rightarrow> error + string" where
  "js_repeat c count =
     (let n = (if count < 0 then - \<lfloor>- count\<rfloor> else \<lfloor>count\<rfloor>)
      in if n < 0 then Inl RangeError else Inr (replicate (nat n) c))"

datatype indentType = Space | Tab

definition validateTokenIndent ::
  "tokenInfo \<Rightarrow> indentType \<Rightarrow> int \<Rightarrow> token \<Rightarrow> rat \<Rightarrow> error + bool" where
  "validateTokenIndent ti indentTy indentSize tok desiredIndentLevel =
     (let indentation = getTokenIndent ti tok;
          expectedChar = (if indentTy = Space then CHR '' '' else CHR 0x09)
      in case js_repeat expectedChar (desiredIndentLevel * of_int indentSize) of
           Inl e \<Rightarrow> Inl e
         | Inr expected \<Rightarrow>
             Inr (indentation = expected
                  \<or> (CHR '' '' \<in> set indentation \<and> CHR 0x09 \<in> set indentation)))"

text \<open>
  What \<^verbatim>\<open>report\<close> hands to \<^verbatim>\<open>context.report\<close>: the token, the needed number of
  indentation characters and the spaces and tabs found.
\<close>

record violation =
  v_node :: token
  v_neededChars :: rat
  v_numSpaces :: nat
  v_numTabs :: nat

definition report :: "tokenInfo \<Rightarrow> int \<Rightarrow> token \<Rightarrow> rat \<Rightarrow> violation" where
  "report ti indentSize tok neededIndentLevel =
     (let actualIndent = getTokenIndent ti tok
      in \<lparr> v_node = tok,
           v_neededChars = neededIndentLevel * of_int indentSize,
           v_numSpaces = length (filter (\<lambda>c. c = CHR '' '') actualIndent),
           v_numTabs = length (filter (\<lambda>c. c = CHR 0x09) actualIndent) \<rparr>)"

text \<open>
  The parts of \<^verbatim>\<open>sourceCode\<close> that the pass reads besides the token information:
  whether a token is a comment, the map \<^verbatim>\<open>precedingTokens\<close>, \<^verbatim>\<open>getTokenAfter\<close>
  and \<^verbatim>\<open>sourceCode.ast.tokens[0]\<close>.
\<close>

record passContext =
  pc_indentType :: indentType
  pc_isCommentToken :: "token \<Rightarrow> bool"
  pc_precedingTokens :: "token \<rightharpoonup> token"
  pc_getTokenAfter :: "token \<rightharpoonup> token"
  pc_firstAstToken :: "token option"

text \<open>Sequencing of calls that may throw, may not return, and change the storage.\<close>

definition thenDo ::
  "(error + 'a \<times> offsetStorage) option \<Rightarrow> ('a \<Rightarrow> offsetStorage \<Rightarrow> (error + 'b \<times> offsetStorage) option)
     \<Rightarrow> (error + 'b \<times> offsetStorage) option" where
  "thenDo m f =
     (case m of
        None \<Rightarrow> None
      | Some (Inl e) \<Rightarrow> Some (Inl e)
      | Some (Inr (x, s)) \<Rightarrow> f x s)"

text \<open>\<^verbatim>\<open>validateTokenIndent(tok, offsets.getDesiredIndent(other))\<close>.\<close>

definition checkIndent ::
  "passContext \<Rightarrow> token \<Rightarrow> token \<Rightarrow> offsetStorage \<Rightarrow> (error + bool \<times> offsetStorage) option" where
  "checkIndent pc tok other s =
     thenDo (getDesiredIndent other s)
       (\<lambda>d s'. case validateTokenIndent (st_tokenInfo s') (pc_indentType pc) (st_indentSize s') tok d of
                  Inl e \<Rightarrow> Some (Inl e)
                | Inr ok \<Rightarrow> Some (Inr (ok, s')))"

text \<open>
  The leniency for comments: a comment is not reported when its indentation matches
  the desired indentation of the token before or after it.
\<close>

definition commentLeniency ::
  "passContext \<Rightarrow> token \<Rightarrow> offsetStorage \<Rightarrow> (error + bool \<times> offsetStorage) option" where
  "commentLeniency pc tok s =
     (if \<not> pc_isCommentToken pc tok then Some (Inr (False, s))
      else
        let tokenBefore = pc_precedingTokens pc tok;
            tokenAfter = (case tokenBefore of
                            Some b \<Rightarrow> pc_getTokenAfter pc b
                          | None \<Rightarrow> pc_firstAstToken pc)
        in thenDo (case tokenBefore of
                     None \<Rightarrow> Some (Inr (False, s))
                   | Some b \<Rightarrow> checkIndent pc tok b s)
             (\<lambda>okBefore s1.
                if okBefore then Some (Inr (True, s1))
                else (case tokenAfter of
                        None \<Rightarrow> Some (Inr (False, s1))
                      | Some a \<Rightarrow> checkIndent pc tok a s1)))"

text \<open>
  The body of the loop over the lines in \<^verbatim>\<open>"Program:exit"\<close>, for one line number:
  the violation reported for the line, if any.  The storage is the one that the loop
  finds, after the traversal and \<^verbatim>\<open>addParensIndent\<close> have made their declarations.
\<close>

definition checkLine ::
  "passContext \<Rightarrow> int \<Rightarrow> offsetStorage \<Rightarrow> (error + violation option \<times> offsetStorage) option" where
  "checkLine pc lineNumber s =
     (case firstTokensByLineNumber (st_tokenInfo s) lineNumber of
        None \<Rightarrow> Some (Inr (None, s))
      | Some firstTokenOfLine \<Rightarrow>
          if loc_start_line firstTokenOfLine \<noteq> lineNumber then Some (Inr (None, s))
          else
            thenDo (checkIndent pc firstTokenOfLine firstTokenOfLine s)
              (\<lambda>ok s1.
                 if ok then Some (Inr (None, s1))
                 else
                   thenDo (commentLeniency pc firstTokenOfLine s1)
                     (\<lambda>lenient s2.
                        if lenient then Some (Inr (None, s2))
                        else
                          thenDo (getDesiredIndent firstTokenOfLine s2)
                            (\<lambda>d s3. Some (Inr (Some (report (st_tokenInfo s3) (st_indentSize s3)
                                                        firstTokenOfLine d), s3))))))"

section \<open>Example tokens and storages\<close>

text \<open>
  The concrete inputs of the witnesses and counterexamples.  \<open>storage0\<close> is a fresh
  storage with an indent size of 4; \<open>tokA\<close>, \<open>tokC\<close> and \<open>tokZ\<close> are tokens of line 1,
  \<open>tokB\<close> is a token of line 2.
\<close>

definition tokA :: token where
  "tokA = \<lparr> tid = 0, range0 = 2, range1 = 5, loc_start_line = 1, loc_start_column = 2 \<rparr>"

definition tokB :: token where
  "tokB = \<lparr> tid = 1, range0 = 6, range1 = 7, loc_start_line = 2, loc_start_column = 0 \<rparr>"

definition tokC :: token where
  "tokC = \<lparr> tid = 2, range0 = 6, range1 = 8, loc_start_line = 1, loc_start_column = 6 \<rparr>"

definition tokZ :: token where
  "tokZ = \<lparr> tid = 6, range0 = 0, range1 = 1, loc_start_line = 1, loc_start_column = 0 \<rparr>"

definition descInitial :: descriptor where
  "descInitial = \<lparr> offset = 0, fromToken = None, force = False \<rparr>"

definition storage0 :: offsetStorage where
  "storage0 = OffsetStorage \<lparr> sourceText = [], firstTokensByLineNumber = Map.empty \<rparr> 4"

text \<open>\<open>storage1\<close>: \<open>storage0\<close> after \<^verbatim>\<open>setDesiredOffsets([0, 9], tokA, 1)\<close>.\<close>

definition storage1 :: offsetStorage where
  "storage1 = storage0\<lparr> st_tree :=
     [(0, \<lparr> offset = 1, fromToken = Some tokA, force = False \<rparr>),
      (2, descInitial),
      (5, \<lparr> offset = 1, fromToken = Some tokA, force = False \<rparr>),
      (9, descInitial)] \<rparr>"

text \<open>
  \<open>storage2\<close>: \<open>storage0\<close> after \<^verbatim>\<open>setDesiredOffsets([6, 9], tokA, 1)\<close>;
  \<open>storage2Q\<close>: \<open>storage2\<close> after the query of \<open>tokB\<close>, which also caches \<open>tokA\<close>.
  \<open>storage0B\<close>: \<open>storage0\<close> after the query of \<open>tokB\<close>; \<open>storage2B\<close>: \<open>storage0B\<close>
  after the same declaration.
\<close>

definition storage2 :: offsetStorage where
  "storage2 = storage0\<lparr> st_tree :=
     [(0, descInitial),
      (6, \<lparr> offset = 1, fromToken = Some tokA, force = False \<rparr>),
      (9, descInitial)] \<rparr>"

definition storage2Q :: offsetStorage where
  "storage2Q = cacheSet tokB 1 (cacheSet tokA 0 storage2)"

definition storage0B :: offsetStorage where
  "storage0B = cacheSet tokB 0 storage0"

definition storage2B :: offsetStorage where
  "storage2B = storage0B\<lparr> st_tree :=
     [(0, descInitial),
      (6, \<lparr> offset = 1, fromToken = Some tokA, force = False \<rparr>),
      (9, descInitial)] \<rparr>"

text \<open>
  \<open>storage3\<close> and \<open>storage3F\<close>: \<open>storage0\<close> after
  \<^verbatim>\<open>setDesiredOffsets([5, 9], tokA, 1)\<close>, without and with force.
\<close>

definition storage3 :: offsetStorage where
  "storage3 = storage0\<lparr> st_tree :=
     [(0, descInitial),
      (5, \<lparr> offset = 1, fromToken = Some tokA, force = False \<rparr>),
      (9, descInitial)] \<rparr>"

definition storage3F :: offsetStorage where
  "storage3F = storage0\<lparr> st_tree :=
     [(0, descInitial),
      (5, \<lparr> offset = 1, fromToken = Some tokA, force = True \<rparr>),
      (9, descInitial)] \<rparr>"

text \<open>
  \<open>storageZ\<close>: \<open>storage0\<close> after \<^verbatim>\<open>setDesiredOffsets([2, 5], tokZ, 1)\<close>, so that
  \<open>tokA\<close> is offset from \<open>tokZ\<close>.  From it, \<open>storageZA\<close> after
  \<^verbatim>\<open>setDesiredOffsets([2, 9], tokA, 1)\<close> and \<open>storageCyc\<close> after
  \<^verbatim>\<open>setDesiredOffsets([0, 9], tokA, 1)\<close>.  \<open>storageSelf\<close>: \<open>storage0\<close> after
  \<^verbatim>\<open>setDesiredOffsets([0, 4], tokA, 1)\<close>, a range that ends inside \<open>tokA\<close>.
\<close>

definition storageZ :: offsetStorage where
  "storageZ = storage0\<lparr> st_tree :=
     [(0, descInitial),
      (2, \<lparr> offset = 1, fromToken = Some tokZ, force = False \<rparr>),
      (5, descInitial)] \<rparr>"

definition storageZA :: offsetStorage where
  "storageZA = storage0\<lparr> st_tree :=
     [(0, descInitial),
      (2, \<lparr> offset = 1, fromToken = Some tokZ, force = False \<rparr>),
      (5, \<lparr> offset = 1, fromToken = Some tokA, force = False \<rparr>),
      (9, descInitial)] \<rparr>"

definition storageCyc :: offsetStorage where
  "storageCyc = storage0\<lparr> st_tree :=
     [(0, \<lparr> offset = 1, fromToken = Some tokA, force = False \<rparr>),
      (2, \<lparr> offset = 1, fromToken = Some tokZ, force = False \<rparr>),
      (5, \<lparr> offset = 1, fromToken = Some tokA, force = False \<rparr>),
      (9, descInitial)] \<rparr>"

definition storageSelf :: offsetStorage where
  "storageSelf = storage0\<lparr> st_tree :=
     [(0, \<lparr> offset = 1, fromToken = Some tokA, force = False \<rparr>),
      (4, descInitial)] \<rparr>"

text \<open>
  A file whose second line begins with \<open>tokB\<close>, and the storage in which \<open>tokB\<close> is
  locked onto itself by \<^verbatim>\<open>matchOffsetOf(tokB, tokB)\<close>.
\<close>

definition tokenInfoB :: tokenInfo where
  "tokenInfoB = \<lparr> sourceText = ''a =\<newline>b'', firstTokensByLineNumber = [2 \<mapsto> tokB] \<rparr>"

definition storageLock :: offsetStorage where
  "storageLock = matchOffsetOf tokB tokB (OffsetStorage tokenInfoB 4)"

text \<open>
  A line \<^verbatim>\<open>"    a b"\<close> whose first token \<open>tokI\<close> is ignored, with
  \<^verbatim>\<open>setDesiredOffsets(tokI.range, tokJ, 1)\<close> declared after that: \<open>storageI\<close> for an
  indent size of 4 and no force, \<open>storageIF\<close> for an indent size of 2 and force.
\<close>

definition tokI :: token where
  "tokI = \<lparr> tid = 3, range0 = 4, range1 = 5, loc_start_line = 1, loc_start_column = 4 \<rparr>"

definition tokJ :: token where
  "tokJ = \<lparr> tid = 4, range0 = 6, range1 = 7, loc_start_line = 1, loc_start_column = 6 \<rparr>"

definition tokenInfoI :: tokenInfo where
  "tokenInfoI = \<lparr> sourceText = ''    a b'', firstTokensByLineNumber = [1 \<mapsto> tokI] \<rparr>"

definition storageI :: offsetStorage where
  "storageI = (ignoreToken tokI (OffsetStorage tokenInfoI 4))\<lparr> st_tree :=
     [(0, descInitial),
      (4, \<lparr> offset = 1, fromToken = Some tokJ, force = False \<rparr>),
      (5, descInitial)] \<rparr>"

definition storageIF :: offsetStorage where
  "storageIF = (ignoreToken tokI (OffsetStorage tokenInfoI 2))\<lparr> st_tree :=
     [(0, descInitial),
      (4, \<lparr> offset = 1, fromToken = Some tokJ, force = True \<rparr>),
      (5, descInitial)] \<rparr>"

text \<open>
  A second line that begins with \<open>tokE\<close> at column 4 and holds \<open>tokF\<close> at column 12.
  \<open>storageLk\<close>: \<open>tokC\<close> is locked onto \<open>tokF\<close> by \<^verbatim>\<open>matchOffsetOf(tokF, tokC)\<close>,
  then \<^verbatim>\<open>setDesiredOffsets([5, 9], tokA, 1, force)\<close> is declared.
  \<open>storageQ0\<close>: \<open>storage0\<close> after \<^verbatim>\<open>setDesiredOffsets([6, 8], tokE, 2)\<close> and the
  query of \<open>tokC\<close>; \<open>storageQ\<close>: \<open>storageQ0\<close> after
  \<^verbatim>\<open>setDesiredOffsets([5, 9], tokA, 1, force)\<close>.
\<close>

definition tokE :: token where
  "tokE = \<lparr> tid = 7, range0 = 12, range1 = 13, loc_start_line = 2, loc_start_column = 4 \<rparr>"

definition tokF :: token where
  "tokF = \<lparr> tid = 8, range0 = 20, range1 = 21, loc_start_line = 2, loc_start_column = 12 \<rparr>"

definition tokenInfoL :: tokenInfo where
  "tokenInfoL = \<lparr> sourceText = [], firstTokensByLineNumber = [1 \<mapsto> tokZ, 2 \<mapsto> tokE] \<rparr>"

definition storageLk :: "bool \<Rightarrow> offsetStorage" where
  "storageLk frc = (matchOffsetOf tokF tokC (OffsetStorage tokenInfoL 4))\<lparr> st_tree :=
     [(0, descInitial),
      (5, \<lparr> offset = 1, fromToken = Some tokA, force = frc \<rparr>),
      (9, descInitial)] \<rparr>"

definition storageQ0 :: offsetStorage where
  "storageQ0 = cacheSet tokC 2 (cacheSet tokE 0 (storage0\<lparr> st_tree :=
     [(0, descInitial),
      (6, \<lparr> offset = 2, fromToken = Some tokE, force = False \<rparr>),
      (8, descInitial)] \<rparr>))"

definition storageQ :: "bool \<Rightarrow> offsetStorage" where
  "storageQ frc = storageQ0\<lparr> st_tree :=
     [(0, descInitial),
      (5, \<lparr> offset = 1, fromToken = Some tokA, force = frc \<rparr>),
      (9, descInitial)] \<rparr>"

text \<open>
  A line that is indented with one tab and begins with the ignored token \<open>tokT\<close>, under
  the configuration of four spaces per level; the token is not a comment.
\<close>

definition tokT :: token where
  "tokT = \<lparr> tid = 5, range0 = 1, range1 = 4, loc_start_line = 1, loc_start_column = 1 \<rparr>"

definition tokenInfoT :: tokenInfo where
  "tokenInfoT = \<lparr> sourceText = CHR 0x09 # ''foo'', firstTokensByLineNumber = [1 \<mapsto> tokT] \<rparr>"

definition storageT :: offsetStorage where
  "storageT = ignoreToken tokT (OffsetStorage tokenInfoT 4)"

definition passT :: passContext where
  "passT = \<lparr> pc_indentType = Space, pc_isCommentToken = (\<lambda>t. False),
             pc_precedingTokens = Map.empty, pc_getTokenAfter = Map.empty,
             pc_firstAstToken = Some tokT \<rparr>"

section \<open>Properties of the search tree\<close>

lemma keysIncreasing_Nil [simp]: "keysIncreasing []"
  by (simp add: keysIncreasing_def)

lemma keysIncreasing_Cons:
  "keysIncreasing ((k, v) # t) \<longleftrightarrow> (\<forall>e \<in> set t. k < fst e) \<and> keysIncreasing t"
  by (auto simp: keysIncreasing_def)

lemma keysIncreasing_distinct: "keysIncreasing t \<Longrightarrow> distinct (map fst t)"
  unfolding keysIncreasing_def by (simp add: strict_sorted_iff)

lemma rb_find_map_of: "rb_find k t = map_of t k"
  by (induction t) auto

lemma set_rb_insert: "set (rb_insert k v t) = insert (k, v) (set t)"
  by (induction t) (auto split: if_splits)

lemma keysIncreasing_rb_insert:
  "keysIncreasing t \<Longrightarrow> map_of t k = None \<Longrightarrow> keysIncreasing (rb_insert k v t)"
proof (induction t)
  case Nil
  then show ?case by (simp add: keysIncreasing_def)
next
  case (Cons e t)
  obtain k' v' where e: "e = (k', v')" by (cases e)
  from Cons.prems have ne: "k \<noteq> k'" and none: "map_of t k = None"
    by (auto simp: e split: if_splits)
  from Cons.prems have inc: "keysIncreasing t" and low: "\<forall>x \<in> set t. k' < fst x"
    by (auto simp: e keysIncreasing_Cons)
  show ?case
  proof (cases "k \<le> k'")
    case True
    with ne have "k < k'" by simp
    with low inc show ?thesis
      by (auto simp: e keysIncreasing_Cons)
  next
    case False
    with low Cons.IH [OF inc none] show ?thesis
      by (auto simp: e keysIncreasing_Cons set_rb_insert)
  qed
qed

lemma map_of_rb_insert:
  "map_of t k = None \<Longrightarrow> map_of (rb_insert k v t) = (map_of t)(k \<mapsto> v)"
  by (induction t) (auto split: if_splits)

lemma map_fst_rb_update: "map fst (rb_update k v t) = map fst t"
  by (induction t) auto

lemma map_of_rb_update:
  "map_of t k \<noteq> None \<Longrightarrow> map_of (rb_update k v t) = (map_of t)(k \<mapsto> v)"
  by (induction t) (auto split: if_splits)

lemma keysIncreasing_rb_update: "keysIncreasing t \<Longrightarrow> keysIncreasing (rb_update k v t)"
  by (simp add: keysIncreasing_def map_fst_rb_update)

lemma keysIncreasing_insert_bst:
  "keysIncreasing t \<Longrightarrow> keysIncreasing (insert_bst k v t)"
  by (simp add: insert_bst_def rb_find_map_of keysIncreasing_rb_insert
      keysIncreasing_rb_update split: option.splits)

lemma map_of_insert_bst: "map_of (insert_bst k v t) = (map_of t)(k \<mapsto> v)"
  by (auto simp: insert_bst_def rb_find_map_of map_of_rb_insert map_of_rb_update
      split: option.splits)

lemma set_rb_remove_subset: "set (rb_remove k t) \<subseteq> set t"
  by (induction t) (auto split: if_splits)

lemma keysIncreasing_rb_remove: "keysIncreasing t \<Longrightarrow> keysIncreasing (rb_remove k t)"
proof (induction t)
  case Nil
  then show ?case by simp
next
  case (Cons e t)
  obtain k' v' where e: "e = (k', v')" by (cases e)
  from Cons.prems have inc: "keysIncreasing t" and low: "\<forall>x \<in> set t. k' < fst x"
    by (auto simp: e keysIncreasing_Cons)
  show ?case
  proof (cases "k = k'")
    case True
    with inc show ?thesis by (simp add: e)
  next
    case False
    with Cons.IH [OF inc] low set_rb_remove_subset [of k t] show ?thesis
      by (auto simp: e keysIncreasing_Cons)
  qed
qed

lemma map_of_rb_remove:
  "keysIncreasing t \<Longrightarrow> map_of (rb_remove k t) = (map_of t)(k := None)"
proof (induction t)
  case Nil
  then show ?case by simp
next
  case (Cons e t)
  obtain k' v' where e: "e = (k', v')" by (cases e)
  from Cons.prems have inc: "keysIncreasing t" and low: "\<forall>x \<in> set t. k' < fst x"
    by (auto simp: e keysIncreasing_Cons)
  have "map_of t k' = None"
  proof (rule ccontr)
    assume "map_of t k' \<noteq> None"
    then obtain w where "(k', w) \<in> set t" by (auto dest: map_of_SomeD)
    with low show False by auto
  qed
  with Cons.IH [OF inc] show ?case
    by (auto simp: e fun_eq_iff)
qed

lemma keysIncreasing_deleteLoop:
  "keysIncreasing t \<Longrightarrow> keysIncreasing (deleteLoop it en t)"
  by (induction it en t rule: deleteLoop.induct) (auto simp: keysIncreasing_rb_remove)

lemma map_of_deleteLoop:
  "keysIncreasing t \<Longrightarrow>
   map_of (deleteLoop it en t) =
     (\<lambda>k. if k \<in> fst ` set (takeWhile (\<lambda>e. fst e < en) it) then None else map_of t k)"
proof (induction it en t rule: deleteLoop.induct)
  case (1 en t)
  then show ?case by simp
next
  case (2 k v it en t)
  show ?case
  proof (cases "k < en")
    case True
    from 2 True show ?thesis
      by (auto simp: keysIncreasing_rb_remove map_of_rb_remove fun_eq_iff)
  next
    case False
    then show ?thesis by simp
  qed
qed

lemma rb_ge_dropWhile: "rb_ge k t = dropWhile (\<lambda>e. fst e < k) t"
  by (induction t) auto

lemma keys_between:
  "keysIncreasing t \<Longrightarrow>
   fst ` set (takeWhile (\<lambda>e. fst e < en) (dropWhile (\<lambda>e. fst e < st) t)) =
     {k \<in> fst ` set t. st \<le> k \<and> k < en}"
proof (induction t)
  case Nil
  then show ?case by simp
next
  case (Cons e t)
  obtain k' v' where e: "e = (k', v')" by (cases e)
  from Cons.prems have inc: "keysIncreasing t" and low: "\<forall>x \<in> set t. k' < fst x"
    by (auto simp: e keysIncreasing_Cons)
  show ?case
  proof (cases "k' < st")
    case True
    with Cons.IH [OF inc] show ?thesis by (auto simp: e)
  next
    case ge: False
    show ?thesis
    proof (cases "k' < en")
      case True
      have "takeWhile (\<lambda>e. fst e < en) t = takeWhile (\<lambda>e. fst e < en) (dropWhile (\<lambda>e. fst e < st) t)"
        using low ge by (cases t) (auto simp: dropWhile_eq_self_iff)
      moreover have "dropWhile (\<lambda>e. fst e < st) t = t"
        using low ge by (cases t) (auto simp: dropWhile_eq_self_iff)
      ultimately show ?thesis
        using Cons.IH [OF inc] ge True low by (auto simp: e)
    next
      case False
      with ge low show ?thesis by (auto simp: e)
    qed
  qed
qed

lemma keysIncreasing_deleteRange:
  "keysIncreasing t \<Longrightarrow> keysIncreasing (deleteRange st en t)"
  by (simp add: deleteRange_def keysIncreasing_deleteLoop)

lemma map_of_deleteRange:
  "keysIncreasing t \<Longrightarrow>
   map_of (deleteRange st en t) = (\<lambda>k. if st \<le> k \<and> k < en then None else map_of t k)"
proof (cases "st = en")
  case True
  then show ?thesis by (auto simp: deleteRange_def fun_eq_iff)
next
  case False
  assume inc: "keysIncreasing t"
  have "\<And>k. k \<in> fst ` set t \<longleftrightarrow> map_of t k \<noteq> None"
    by (simp add: map_of_eq_None_iff)
  with False inc show ?thesis
    by (auto simp: deleteRange_def map_of_deleteLoop rb_ge_dropWhile keys_between fun_eq_iff)
qed

lemma rb_le_None_iff:
  "rb_le k t = None \<longleftrightarrow> (\<forall>e \<in> set t. k < fst e)"
  by (induction t) (auto split: option.splits if_splits)

lemma rb_le_SomeD:
  "rb_le k t = Some e \<Longrightarrow> e \<in> set t \<and> fst e \<le> k"
  by (induction t) (auto split: option.splits if_splits)

lemma rb_le_greatest:
  "keysIncreasing t \<Longrightarrow> rb_le k t = Some e \<Longrightarrow> x \<in> set t \<Longrightarrow> fst x \<le> k \<Longrightarrow> fst x \<le> fst e"
proof (induction t)
  case Nil
  then show ?case by simp
next
  case (Cons a t)
  obtain k' v' where a: "a = (k', v')" by (cases a)
  from Cons.prems have inc: "keysIncreasing t" and low: "\<forall>y \<in> set t. k' < fst y"
    by (auto simp: a keysIncreasing_Cons)
  show ?case
  proof (cases "rb_le k t")
    case None
    then have "\<forall>y \<in> set t. k < fst y" by (simp add: rb_le_None_iff)
    with None Cons.prems show ?thesis
      by (auto simp: a split: if_splits)
  next
    case (Some e')
    with Cons.prems have e': "e' = e" by (auto simp: a split: if_splits)
    from Some rb_le_SomeD have "e' \<in> set t" by blast
    with low have "k' < fst e'" by blast
    with Cons.prems Cons.IH [OF inc] Some e' show ?thesis
      by (auto simp: a)
  qed
qed

lemma map_of_keysIncreasing:
  "keysIncreasing t \<Longrightarrow> map_of t k = Some v \<longleftrightarrow> (k, v) \<in> set t"
  by (auto dest: map_of_SomeD keysIncreasing_distinct)

lemma findLe_iff:
  assumes "keysIncreasing t"
  shows "findLe k t = Some (k', v) \<longleftrightarrow>
     map_of t k' = Some v \<and> k' \<le> k \<and> (\<forall>j. j \<le> k \<and> map_of t j \<noteq> None \<longrightarrow> j \<le> k')"
proof
  assume h: "findLe k t = Some (k', v)"
  then have mem: "(k', v) \<in> set t" and le: "k' \<le> k"
    using rb_le_SomeD [of k t "(k', v)"] by (auto simp: findLe_def)
  have "j \<le> k'" if "j \<le> k" and "map_of t j \<noteq> None" for j
  proof -
    from that obtain w where "(j, w) \<in> set t" by (auto dest: map_of_SomeD)
    with rb_le_greatest [OF assms, of k "(k', v)" "(j, w)"] h that show ?thesis
      by (simp add: findLe_def)
  qed
  with mem le assms show "map_of t k' = Some v \<and> k' \<le> k \<and> (\<forall>j. j \<le> k \<and> map_of t j \<noteq> None \<longrightarrow> j \<le> k')"
    by (simp add: map_of_keysIncreasing)
next
  assume h: "map_of t k' = Some v \<and> k' \<le> k \<and> (\<forall>j. j \<le> k \<and> map_of t j \<noteq> None \<longrightarrow> j \<le> k')"
  with assms have mem: "(k', v) \<in> set t" by (simp add: map_of_keysIncreasing)
  with h have "rb_le k t \<noteq> None"
    unfolding rb_le_None_iff by (auto intro!: bexI [of _ "(k', v)"])
  then obtain e where e: "rb_le k t = Some e" by auto
  then have emem: "e \<in> set t" and ele: "fst e \<le> k" using rb_le_SomeD by blast+
  from rb_le_greatest [OF assms e mem] h have "k' \<le> fst e" by simp
  moreover from emem assms have "map_of t (fst e) = Some (snd e)"
    by (simp add: map_of_keysIncreasing)
  with h ele have "fst e \<le> k'" by auto
  ultimately have "fst e = k'" by simp
  with emem mem assms have "e = (k', v)"
    by (metis map_of_keysIncreasing option.inject prod.collapse)
  with e show "findLe k t = Some (k', v)" by (simp add: findLe_def)
qed

lemma findLe_None_iff:
  "findLe k t = None \<longleftrightarrow> (\<forall>j. map_of t j \<noteq> None \<longrightarrow> k < j)"
proof -
  have "(\<forall>e \<in> set t. k < fst e) \<longleftrightarrow> (\<forall>j. map_of t j \<noteq> None \<longrightarrow> k < j)"
    by (force simp: map_of_eq_None_iff dest: map_of_SomeD)
  then show ?thesis by (simp add: findLe_def rb_le_None_iff)
qed

lemma findLe_cong_below:
  assumes "keysIncreasing t" and "keysIncreasing t'"
    and "\<forall>j \<le> p. map_of t' j = map_of t j"
  shows "findLe p t' = findLe p t"
proof (cases "findLe p t")
  case None
  have "p < j" if "map_of t' j \<noteq> None" for j
  proof (rule ccontr)
    assume "\<not> p < j"
    then have "j \<le> p" by simp
    with assms(3) that have "map_of t j \<noteq> None" by simp
    with None \<open>j \<le> p\<close> show False by (auto simp: findLe_None_iff)
  qed
  then have "findLe p t' = None" by (simp add: findLe_None_iff)
  with None show ?thesis by simp
next
  case (Some e)
  obtain k v where e: "e = (k, v)" by (cases e)
  from Some have "findLe p t = Some (k, v)" by (simp add: e)
  then have "findLe p t' = Some (k, v)"
    unfolding findLe_iff [OF assms(1)] findLe_iff [OF assms(2)]
    using assms(3) by auto
  with Some e show ?thesis by simp
qed

lemma findLe_gap:
  assumes inc: "keysIncreasing t" and b: "b \<le> p"
    and gap: "\<forall>j. b < j \<and> j \<le> p \<longrightarrow> map_of t j = None"
  shows "findLe p t = findLe b t"
proof (cases "findLe b t")
  case None
  have "p < j" if "map_of t j \<noteq> None" for j
  proof (rule ccontr)
    assume "\<not> p < j"
    then have jp: "j \<le> p" by simp
    from None that have "b < j" by (simp add: findLe_None_iff)
    with gap jp that show False by simp
  qed
  then have "findLe p t = None" by (simp add: findLe_None_iff)
  with None show ?thesis by simp
next
  case (Some e)
  obtain k v where e: "e = (k, v)" by (cases e)
  from Some have kv: "map_of t k = Some v" "k \<le> b"
    and top: "\<And>j. j \<le> b \<Longrightarrow> map_of t j \<noteq> None \<Longrightarrow> j \<le> k"
    by (simp_all add: e findLe_iff [OF inc])
  have "j \<le> k" if "j \<le> p" and "map_of t j \<noteq> None" for j
  proof -
    from gap that have "j \<le> b" by (metis not_le)
    with top that show ?thesis by simp
  qed
  with kv b have "findLe p t = Some (k, v)"
    by (simp add: findLe_iff [OF inc])
  with Some e show ?thesis by simp
qed

lemma descriptorAt_cong_above:
  assumes inc: "keysIncreasing t" and inc': "keysIncreasing t'"
    and b: "b \<le> p"
    and same: "\<forall>j. b < j \<and> j \<le> p \<longrightarrow> map_of t' j = map_of t j"
    and atb: "descriptorAt t' b = descriptorAt t b"
  shows "descriptorAt t' p = descriptorAt t p"
proof (cases "\<exists>j. b < j \<and> j \<le> p \<and> map_of t j \<noteq> None")
  case True
  then obtain j0 where j0: "b < j0" "j0 \<le> p" "map_of t j0 \<noteq> None" by blast
  have "findLe p t \<noteq> None" using j0 by (auto simp: findLe_None_iff)
  then obtain k v where kv: "findLe p t = Some (k, v)" by (cases "findLe p t") auto
  then have k: "map_of t k = Some v" "k \<le> p"
    and top: "\<And>j. j \<le> p \<Longrightarrow> map_of t j \<noteq> None \<Longrightarrow> j \<le> k"
    by (simp_all add: findLe_iff [OF inc])
  from top [of j0] j0 have bk: "b < k" by simp
  have "j \<le> k" if "j \<le> p" and "map_of t' j \<noteq> None" for j
  proof (cases "b < j")
    case True
    with same that top show ?thesis by simp
  next
    case False
    with bk show ?thesis by simp
  qed
  with k bk same have "findLe p t' = Some (k, v)"
    by (simp add: findLe_iff [OF inc'])
  with kv show ?thesis by (simp add: descriptorAt_def)
next
  case False
  then have gap: "\<forall>j. b < j \<and> j \<le> p \<longrightarrow> map_of t j = None" by blast
  with same have gap': "\<forall>j. b < j \<and> j \<le> p \<longrightarrow> map_of t' j = None" by simp
  from findLe_gap [OF inc b gap] findLe_gap [OF inc' b gap'] atb
  show ?thesis by (simp add: descriptorAt_def)
qed

section \<open>Declarations\<close>

lemma descriptorAt_Some_iff:
  "keysIncreasing t \<Longrightarrow>
   descriptorAt t p = Some v \<longleftrightarrow>
     (\<exists>k. map_of t k = Some v \<and> k \<le> p \<and> (\<forall>j. j \<le> p \<and> map_of t j \<noteq> None \<longrightarrow> j \<le> k))"
  by (auto simp: descriptorAt_def findLe_iff)

lemma descriptorAt_key:
  "keysIncreasing t \<Longrightarrow> map_of t p = Some v \<Longrightarrow> descriptorAt t p = Some v"
  by (auto simp: descriptorAt_Some_iff)

lemma findLe_exists:
  "map_of t k \<noteq> None \<Longrightarrow> k \<le> p \<Longrightarrow> \<exists>e. findLe p t = Some e"
  by (cases "findLe p t") (auto simp: findLe_None_iff)

lemma getOffsetDescriptor_eq:
  "getOffsetDescriptor tok s = (case descriptorAt (st_tree s) (range0 tok) of None \<Rightarrow> Inl TypeError | Some d \<Rightarrow> Inr d)"
  by (simp add: getOffsetDescriptor_def descriptorAt_def split: option.splits)

text \<open>The tree that a successful declaration leaves, as a map.\<close>

lemma setDesiredOffsets_Inr:
  assumes inc: "keysIncreasing (st_tree s)"
    and ok: "setDesiredOffsets rng fromTok off frc s = Inr s'"
  obtains tail fd where
      "descriptorAt (st_tree s) (snd rng) = Some tail"
      "fromTokenDescriptorOf rng fromTok s = Inr fd"
      "s' = s\<lparr> st_tree := st_tree s' \<rparr>"
      "keysIncreasing (st_tree s')"
      "map_of (st_tree s') =
         treeMapAfter (map_of (st_tree s)) rng
           \<lparr> offset = off, fromToken = fromTok, force = frc \<rparr> fd tail"
proof -
  from ok obtain after where after: "findLe (snd rng) (st_tree s) = Some after"
    by (cases "findLe (snd rng) (st_tree s)") (simp_all add: setDesiredOffsets_def Let_def)
  from ok after obtain fd where fd: "fromTokenDescriptorOf rng fromTok s = Inr fd"
    by (cases "fromTokenDescriptorOf rng fromTok s") (simp_all add: setDesiredOffsets_def Let_def)
  define new where "new = \<lparr> offset = off, fromToken = fromTok, force = frc \<rparr>"
  define t2 where "t2 = insert_bst (fst rng) new (deleteRange (fst rng + 1) (snd rng) (st_tree s))"
  define t3 where "t3 = (case fd of None \<Rightarrow> t2
     | Some (f, d) \<Rightarrow> insert_bst (range1 f) new (insert_bst (range0 f) d t2))"
  from ok after fd have s': "s' = s\<lparr> st_tree := insert_bst (snd rng) (snd after) t3 \<rparr>"
    unfolding t3_def t2_def new_def by (auto simp: setDesiredOffsets_def Let_def)
  have inc2: "keysIncreasing t2"
    by (simp add: t2_def inc keysIncreasing_insert_bst keysIncreasing_deleteRange)
  then have inc3: "keysIncreasing t3"
    by (simp add: t3_def keysIncreasing_insert_bst split: option.splits prod.splits)
  have m2: "map_of t2 = (\<lambda>k. if fst rng + 1 \<le> k \<and> k < snd rng then None else map_of (st_tree s) k)
                      (fst rng \<mapsto> new)"
    by (simp add: t2_def map_of_insert_bst map_of_deleteRange [OF inc])
  have m3: "map_of t3 = (case fd of None \<Rightarrow> map_of t2
     | Some (f, d) \<Rightarrow> (map_of t2)(range0 f \<mapsto> d, range1 f \<mapsto> new))"
    by (simp add: t3_def map_of_insert_bst split: option.splits prod.splits)
  show ?thesis
  proof (rule that [of "snd after" fd])
    show "descriptorAt (st_tree s) (snd rng) = Some (snd after)"
      by (simp add: descriptorAt_def after)
    show "fromTokenDescriptorOf rng fromTok s = Inr fd" by (rule fd)
    show "s' = s\<lparr> st_tree := st_tree s' \<rparr>" by (simp add: s')
    show "keysIncreasing (st_tree s')"
      by (simp add: s' keysIncreasing_insert_bst inc3)
    show "map_of (st_tree s') =
         treeMapAfter (map_of (st_tree s)) rng
           \<lparr> offset = off, fromToken = fromTok, force = frc \<rparr> fd (snd after)"
      by (simp add: s' map_of_insert_bst m3 m2 new_def treeMapAfter_def Let_def
          split: option.splits prod.splits)
  qed
qed

lemma fromTokenDescriptorOf_Some:
  "fromTokenDescriptorOf rng fromTok s = Inr (Some (f, d)) \<longleftrightarrow>
     fromTok = Some f \<and> fst rng \<le> range0 f \<and> range1 f \<le> snd rng
     \<and> descriptorAt (st_tree s) (range0 f) = Some d"
  by (auto simp: fromTokenDescriptorOf_def fromTokenIsInRange_def getOffsetDescriptor_eq
      split: option.splits sum.splits)

lemma setDesiredOffsets_succeeds:
  assumes b: "findLe (snd rng) (st_tree s) \<noteq> None"
    and f: "\<And>f. fromTok = Some f \<Longrightarrow> fst rng \<le> range0 f \<Longrightarrow> range1 f \<le> snd rng \<Longrightarrow>
             findLe (range0 f) (st_tree s) \<noteq> None"
  shows "\<exists>s'. setDesiredOffsets rng fromTok off frc s = Inr s'"
proof -
  from b obtain after where after: "findLe (snd rng) (st_tree s) = Some after" by auto
  have "\<exists>fd. fromTokenDescriptorOf rng fromTok s = Inr fd"
    using f by (auto simp: fromTokenDescriptorOf_def fromTokenIsInRange_def getOffsetDescriptor_def
        split: option.splits sum.splits)
  then obtain fd where "fromTokenDescriptorOf rng fromTok s = Inr fd" ..
  with after show ?thesis
    by (simp add: setDesiredOffsets_def Let_def)
qed

section \<open>The tiling invariant\<close>

lemma setDesiredOffsets_tiling:
  assumes inc: "keysIncreasing (st_tree s)" and zero: "map_of (st_tree s) 0 \<noteq> None"
    and a: "0 \<le> fst rng" and ab: "fst rng \<le> snd rng"
  shows "\<exists>s'. setDesiredOffsets rng fromTok off frc s = Inr s'
           \<and> keysIncreasing (st_tree s') \<and> map_of (st_tree s') 0 \<noteq> None"
proof -
  have "findLe p (st_tree s) \<noteq> None" if "0 \<le> p" for p
    using findLe_exists [OF zero that] by auto
  with a ab have "\<exists>s'. setDesiredOffsets rng fromTok off frc s = Inr s'"
    by (intro setDesiredOffsets_succeeds) auto
  then obtain s' where s': "setDesiredOffsets rng fromTok off frc s = Inr s'" ..
  from setDesiredOffsets_Inr [OF inc s'] obtain tail fd where
    inc': "keysIncreasing (st_tree s')" and
    m: "map_of (st_tree s') =
         treeMapAfter (map_of (st_tree s)) rng
           \<lparr> offset = off, fromToken = fromTok, force = frc \<rparr> fd tail"
    by metis
  have "map_of (st_tree s') 0 \<noteq> None"
    using zero a by (simp add: m treeMapAfter_def Let_def split: option.splits prod.splits)
  with s' inc' show ?thesis by simp
qed

lemma perform_tiling:
  assumes inc: "keysIncreasing (st_tree s)" and zero: "map_of (st_tree s) 0 \<noteq> None"
    and r: "declaredRange op = Some (a, b)" and a: "0 \<le> a" and ab: "a \<le> b"
  shows "\<exists>s'. perform op s = Some (Inr s')
           \<and> keysIncreasing (st_tree s') \<and> map_of (st_tree s') 0 \<noteq> None"
proof (cases op)
  case (SetDesiredOffsets rng fromTok off frc)
  with r a ab setDesiredOffsets_tiling [OF inc zero, of rng fromTok off frc]
  show ?thesis by simp
next
  case (SetDesiredOffset tok fromTok off)
  with r a ab setDesiredOffsets_tiling [OF inc zero, of "(range0 tok, range1 tok)" fromTok off False]
  show ?thesis by (simp add: setDesiredOffset_def)
next
  case (MatchIndentOf baseToken offsetToken)
  with r a ab setDesiredOffsets_tiling [OF inc zero,
      of "(range0 offsetToken, range1 offsetToken)" "Some baseToken" 0 False]
  show ?thesis by (simp add: matchIndentOf_def)
qed (use r in simp_all)

lemma runOps_tiling:
  assumes "\<forall>op \<in> set ops. \<exists>a b. declaredRange op = Some (a, b) \<and> 0 \<le> a \<and> a \<le> b"
    and "keysIncreasing (st_tree s)" and "map_of (st_tree s) 0 \<noteq> None"
  shows "\<exists>s'. runOps ops s = Some (Inr s')
           \<and> keysIncreasing (st_tree s') \<and> map_of (st_tree s') 0 \<noteq> None"
  using assms
proof (induction ops arbitrary: s)
  case Nil
  then show ?case by simp
next
  case (Cons op ops)
  from Cons.prems(1) obtain a b where "declaredRange op = Some (a, b)" "0 \<le> a" "a \<le> b"
    by auto
  from perform_tiling [OF Cons.prems(2,3) this] obtain s1 where
    s1: "perform op s = Some (Inr s1)" "keysIncreasing (st_tree s1)" "map_of (st_tree s1) 0 \<noteq> None"
    by blast
  from Cons.prems(1) have "\<forall>op \<in> set ops. \<exists>a b. declaredRange op = Some (a, b) \<and> 0 \<le> a \<and> a \<le> b"
    by simp
  from Cons.IH [OF this s1(2,3)] s1(1) show ?case by simp
qed

lemma OffsetStorage_tree:
  "st_tree (OffsetStorage ti indentSize) = [(0, \<lparr> offset = 0, fromToken = None, force = False \<rparr>)]"
  by (simp add: OffsetStorage_def insert_bst_def)

lemma findLe_unique_floor:
  assumes inc: "keysIncreasing t" and zero: "map_of t 0 \<noteq> None" and p: "0 \<le> p"
  shows "\<exists>!e. e \<in> set t \<and> fst e \<le> p \<and> (\<forall>e' \<in> set t. fst e' \<le> p \<longrightarrow> fst e' \<le> fst e)
              \<and> findLe p t = Some e"
proof -
  from findLe_exists [OF zero p] obtain e where e: "findLe p t = Some e" ..
  then have "e \<in> set t" "fst e \<le> p"
    using rb_le_SomeD [of p t e] by (simp_all add: findLe_def)
  moreover have "\<forall>e' \<in> set t. fst e' \<le> p \<longrightarrow> fst e' \<le> fst e"
    using rb_le_greatest [OF inc, of p e] e by (simp add: findLe_def)
  ultimately show ?thesis using e by auto
qed

text \<open>
  C1.  From the initial storage, every sequence of declarations
  (\<^verbatim>\<open>setDesiredOffsets\<close>, \<^verbatim>\<open>setDesiredOffset\<close>, \<^verbatim>\<open>matchIndentOf\<close>) over ranges
  \<open>[a, b]\<close> with \<open>0 \<le> a \<le> b\<close> runs without an exception, and afterwards the keys of
  the tree strictly increase, the key 0 is present, and for every position \<open>p \<ge> 0\<close>
  exactly one entry of the tree is the entry with the largest key at or below \<open>p\<close>, which
  is the entry that \<^verbatim>\<open>findLe(p)\<close> returns.
\<close>

theorem tiling_invariant:
  assumes "\<forall>op \<in> set ops. \<exists>a b. declaredRange op = Some (a, b) \<and> 0 \<le> a \<and> a \<le> b"
  shows "\<exists>s. runOps ops (OffsetStorage ti indentSize) = Some (Inr s)
           \<and> keysIncreasing (st_tree s)
           \<and> (\<exists>d. (0, d) \<in> set (st_tree s))
           \<and> (\<forall>p \<ge> 0. \<exists>!e. e \<in> set (st_tree s) \<and> fst e \<le> p
                            \<and> (\<forall>e' \<in> set (st_tree s). fst e' \<le> p \<longrightarrow> fst e' \<le> fst e)
                            \<and> findLe p (st_tree s) = Some e)"
proof -
  have "keysIncreasing (st_tree (OffsetStorage ti indentSize))"
    and "map_of (st_tree (OffsetStorage ti indentSize)) 0 \<noteq> None"
    by (simp_all add: OffsetStorage_tree keysIncreasing_def)
  from runOps_tiling [OF assms this] obtain s where
    s: "runOps ops (OffsetStorage ti indentSize) = Some (Inr s)"
    and inc: "keysIncreasing (st_tree s)" and zero: "map_of (st_tree s) 0 \<noteq> None"
    by blast
  from zero have "\<exists>d. (0, d) \<in> set (st_tree s)"
    by (auto dest: map_of_SomeD)
  with s inc findLe_unique_floor [OF inc zero] show ?thesis by blast
qed

theorem tiling_invariant_witness:
  "\<exists>s. runOps [SetDesiredOffsets (0, 9) (Some tokA) 1 False, MatchIndentOf tokA tokA]
          (OffsetStorage \<lparr> sourceText = [], firstTokensByLineNumber = Map.empty \<rparr> 4) = Some (Inr s)
        \<and> keysIncreasing (st_tree s)
        \<and> (\<exists>d. (0, d) \<in> set (st_tree s))
        \<and> (\<forall>p \<ge> 0. \<exists>!e. e \<in> set (st_tree s) \<and> fst e \<le> p
                         \<and> (\<forall>e' \<in> set (st_tree s). fst e' \<le> p \<longrightarrow> fst e' \<le> fst e)
                         \<and> findLe p (st_tree s) = Some e)"
proof -
  have h: "\<forall>op \<in> set [SetDesiredOffsets (0, 9) (Some tokA) 1 False, MatchIndentOf tokA tokA].
      \<exists>a b. declaredRange op = Some (a, b) \<and> 0 \<le> a \<and> a \<le> b"
    by (simp add: tokA_def)
  from tiling_invariant [OF h] show ?thesis .
qed

section \<open>The frame of a declaration\<close>

lemma treeMapAfter_apply:
  "treeMapAfter m rng new fd tail j =
     (if j = snd rng then Some tail
      else case fd of
             None \<Rightarrow>
               if j = fst rng then Some new
               else if fst rng + 1 \<le> j \<and> j < snd rng then None else m j
           | Some (f, d) \<Rightarrow>
               if j = range1 f then Some new
               else if j = range0 f then Some d
               else if j = fst rng then Some new
               else if fst rng + 1 \<le> j \<and> j < snd rng then None else m j)"
  by (simp add: treeMapAfter_def Let_def split: option.splits)

lemma treeMapAfter_end: "treeMapAfter m rng new fd tail (snd rng) = Some tail"
  by (simp add: treeMapAfter_apply)

lemma treeMapAfter_above:
  assumes "fst rng \<le> snd rng" and "snd rng < j"
    and "\<And>f d. fd = Some (f, d) \<Longrightarrow> range1 f \<le> snd rng"
  shows "treeMapAfter m rng new fd tail j =
           (case fd of
              None \<Rightarrow> m j
            | Some (f, d) \<Rightarrow> if j = range0 f then Some d else m j)"
  using assms by (auto simp: treeMapAfter_apply split: option.splits)

lemma treeMapAfter_below:
  assumes "j < fst rng" and "fst rng \<le> snd rng"
    and "\<And>f d. fd = Some (f, d) \<Longrightarrow> fst rng \<le> range0 f \<and> range0 f \<le> range1 f"
  shows "treeMapAfter m rng new fd tail j = m j"
  using assms by (fastforce simp: treeMapAfter_apply split: option.splits)

lemma descriptorAt_redundant_key:
  assumes inc: "keysIncreasing t" and inc': "keysIncreasing t'"
    and b: "b \<le> p"
    and same: "\<forall>j. b < j \<and> j \<le> p \<and> j \<noteq> k \<longrightarrow> map_of t' j = map_of t j"
    and k: "b < k" "map_of t' k = Some d" "descriptorAt t k = Some d"
    and atb: "descriptorAt t' b = descriptorAt t b"
  shows "descriptorAt t' p = descriptorAt t p"
proof (cases "p < k")
  case True
  with same have "\<forall>j. b < j \<and> j \<le> p \<longrightarrow> map_of t' j = map_of t j" by auto
  from descriptorAt_cong_above [OF inc inc' b this atb] show ?thesis .
next
  case False
  then have kp: "k \<le> p" by simp
  from k have "\<forall>j. k < j \<and> j \<le> p \<longrightarrow> map_of t' j = map_of t j"
    using same by auto
  moreover have "descriptorAt t' k = descriptorAt t k"
    using k descriptorAt_key [OF inc'] by simp
  ultimately show ?thesis
    using descriptorAt_cong_above [OF inc inc' kp] by blast
qed

lemma setDesiredOffsets_frame_above:
  assumes inc: "keysIncreasing (st_tree s)"
    and ok: "setDesiredOffsets (a, b) fromTok off frc s = Inr s'"
    and ab: "a \<le> b" and p: "b \<le> p"
  shows "descriptorAt (st_tree s') p = descriptorAt (st_tree s) p"
proof -
  from setDesiredOffsets_Inr [OF inc ok] obtain tail fd where
    tail: "descriptorAt (st_tree s) b = Some tail"
    and fd: "fromTokenDescriptorOf (a, b) fromTok s = Inr fd"
    and inc': "keysIncreasing (st_tree s')"
    and m: "map_of (st_tree s') =
         treeMapAfter (map_of (st_tree s)) (a, b)
           \<lparr> offset = off, fromToken = fromTok, force = frc \<rparr> fd tail"
    by (metis snd_conv)
  have atb: "descriptorAt (st_tree s') b = descriptorAt (st_tree s) b"
    using descriptorAt_key [OF inc', of b tail] tail by (simp add: m treeMapAfter_apply)
  have above: "map_of (st_tree s') j =
           (case fd of
              None \<Rightarrow> map_of (st_tree s) j
            | Some (f, d) \<Rightarrow> if j = range0 f then Some d else map_of (st_tree s) j)"
    if "b < j" for j
    unfolding m using ab that fd
    by (intro treeMapAfter_above) (auto simp: fromTokenDescriptorOf_Some)
  show ?thesis
  proof (cases fd)
    case None
    with above have "\<forall>j. b < j \<and> j \<le> p \<longrightarrow> map_of (st_tree s') j = map_of (st_tree s) j"
      by simp
    from descriptorAt_cong_above [OF inc inc' p this atb] show ?thesis .
  next
    case (Some fd')
    obtain f d where fd': "fd' = (f, d)" by (cases fd')
    from fd Some fd' have d: "descriptorAt (st_tree s) (range0 f) = Some d"
      by (simp add: fromTokenDescriptorOf_Some)
    show ?thesis
    proof (cases "b < range0 f")
      case True
      have "\<forall>j. b < j \<and> j \<le> p \<and> j \<noteq> range0 f \<longrightarrow> map_of (st_tree s') j = map_of (st_tree s) j"
        using above Some fd' by simp
      moreover have "map_of (st_tree s') (range0 f) = Some d"
        using above [OF True] Some fd' by simp
      ultimately show ?thesis
        using descriptorAt_redundant_key [OF inc inc' p _ True _ d atb] by blast
    next
      case False
      with above Some fd'
      have "\<forall>j. b < j \<and> j \<le> p \<longrightarrow> map_of (st_tree s') j = map_of (st_tree s) j"
        by auto
      from descriptorAt_cong_above [OF inc inc' p this atb] show ?thesis .
    qed
  qed
qed

text \<open>
  C5.  A call \<^verbatim>\<open>setDesiredOffsets([a, b], anchor, level, force)\<close> with \<open>a \<le> b\<close>
  that returns leaves, at every position \<open>p \<ge> b\<close>, the descriptor that was active there
  before the call; the descriptor that was active at \<open>b\<close> is stored under the key \<open>b\<close>.
\<close>

theorem no_leak_past_range_end:
  assumes "keysIncreasing (st_tree s)"
    and "setDesiredOffsets (a, b) fromTok off frc s = Inr s'"
    and "a \<le> b" and "b \<le> p"
  shows "descriptorAt (st_tree s') p = descriptorAt (st_tree s) p
       \<and> descriptorAt (st_tree s') p \<noteq> None
       \<and> map_of (st_tree s') b = descriptorAt (st_tree s) b"
proof -
  from setDesiredOffsets_Inr [OF assms(1,2)] obtain tail fd where
    tail: "descriptorAt (st_tree s) b = Some tail"
    and inc': "keysIncreasing (st_tree s')"
    and m: "map_of (st_tree s') =
         treeMapAfter (map_of (st_tree s)) (a, b)
           \<lparr> offset = off, fromToken = fromTok, force = frc \<rparr> fd tail"
    by (metis snd_conv)
  have key: "map_of (st_tree s') b = Some tail"
    by (simp add: m treeMapAfter_apply)
  then have "findLe p (st_tree s') \<noteq> None"
    using findLe_exists [of "st_tree s'" b p] assms(4) by auto
  then have "descriptorAt (st_tree s') p \<noteq> None"
    by (simp add: descriptorAt_def)
  with setDesiredOffsets_frame_above [OF assms] key tail show ?thesis by simp
qed

lemmas tree_eval =
  insert_bst_def findLe_def deleteRange_def descriptorAt_def keysIncreasing_def

lemmas decl_eval =
  setDesiredOffsets_def fromTokenDescriptorOf_def fromTokenIsInRange_def
  getOffsetDescriptor_def Let_def

lemma storage0_tree: "st_tree storage0 = [(0, descInitial)]"
  by (simp add: storage0_def OffsetStorage_def descInitial_def insert_bst_def)

lemma storage0_to_storage1:
  "setDesiredOffsets (0, 9) (Some tokA) 1 False storage0 = Inr storage1"
  by (simp add: decl_eval tree_eval storage0_tree storage1_def tokA_def)

theorem no_leak_past_range_end_witness:
  "descriptorAt (st_tree storage1) 12 = descriptorAt (st_tree storage0) 12
   \<and> descriptorAt (st_tree storage1) 12 \<noteq> None
   \<and> map_of (st_tree storage1) 9 = descriptorAt (st_tree storage0) 9"
proof -
  have inc: "keysIncreasing (st_tree storage0)"
    by (simp add: storage0_tree keysIncreasing_def)
  have ab: "(0::int) \<le> 9" and p: "(9::int) \<le> 12" by simp_all
  from no_leak_past_range_end [OF inc storage0_to_storage1 ab p] show ?thesis .
qed

section \<open>Idempotence of a declaration\<close>

lemma keysIncreasing_set_unique:
  "keysIncreasing xs \<Longrightarrow> keysIncreasing ys \<Longrightarrow> set xs = set ys \<Longrightarrow> xs = ys"
proof (induction xs arbitrary: ys)
  case Nil
  then show ?case by simp
next
  case (Cons x xs)
  obtain k v where x: "x = (k, v)" by (cases x)
  from Cons.prems obtain y ys' where ys: "ys = y # ys'" by (cases ys) auto
  obtain k' v' where y: "y = (k', v')" by (cases y)
  from Cons.prems have lowx: "\<forall>e \<in> set xs. k < fst e" and incx: "keysIncreasing xs"
    and lowy: "\<forall>e \<in> set ys'. k' < fst e" and incy: "keysIncreasing ys'"
    by (auto simp: x y ys keysIncreasing_Cons)
  from Cons.prems(3) have "(k, v) \<in> insert (k', v') (set ys')" by (auto simp: x y ys)
  with lowy have kk': "k' \<le> k" by auto
  from Cons.prems(3) have "(k', v') \<in> insert (k, v) (set xs)" by (auto simp: x y ys)
  with lowx have "k \<le> k'" by auto
  with kk' have keq: "k = k'" by simp
  have veq: "v = v'"
  proof (rule ccontr)
    assume "v \<noteq> v'"
    with \<open>(k, v) \<in> insert (k', v') (set ys')\<close> have "(k, v) \<in> set ys'" by simp
    with lowy keq show False by auto
  qed
  have "set xs = set ys'"
  proof -
    have "(k, v) \<notin> set xs" "(k, v) \<notin> set ys'" using lowx lowy keq by auto
    with Cons.prems(3) show ?thesis by (auto simp: x y ys keq veq)
  qed
  from Cons.IH [OF incx incy this] show ?case by (simp add: x y ys keq veq)
qed

lemma keysIncreasing_map_of_unique:
  assumes "keysIncreasing xs" and "keysIncreasing ys" and "map_of xs = map_of ys"
  shows "xs = ys"
proof -
  from assms have "set xs = set ys"
    by (simp add: map_of_inject_set keysIncreasing_distinct)
  with assms show ?thesis by (simp add: keysIncreasing_set_unique)
qed

lemma fromTokenDescriptorOf_None:
  "fromTokenDescriptorOf rng fromTok s = Inr None \<longleftrightarrow> \<not> fromTokenIsInRange rng fromTok"
  by (auto simp: fromTokenDescriptorOf_def fromTokenIsInRange_def split: option.splits sum.splits)

lemma setDesiredOffsets_other_fields:
  "setDesiredOffsets rng fromTok off frc s = Inr s' \<Longrightarrow> s' = s\<lparr> st_tree := st_tree s' \<rparr>"
  by (auto simp: setDesiredOffsets_def Let_def split: option.splits sum.splits)

lemma setDesiredOffsets_twice:
  assumes inc: "keysIncreasing (st_tree s)"
    and ok: "setDesiredOffsets rng fromTok off frc s = Inr s1"
  shows "setDesiredOffsets rng fromTok off frc s1 = Inr s1"
proof -
  define new where "new = \<lparr> offset = off, fromToken = fromTok, force = frc \<rparr>"
  from setDesiredOffsets_Inr [OF inc ok] obtain tail fd where
    fd: "fromTokenDescriptorOf rng fromTok s = Inr fd"
    and inc1: "keysIncreasing (st_tree s1)"
    and m1: "map_of (st_tree s1) = treeMapAfter (map_of (st_tree s)) rng new fd tail"
    unfolding new_def by metis
  have endkey: "map_of (st_tree s1) (snd rng) = Some tail"
    by (simp add: m1 treeMapAfter_apply)
  have b: "findLe (snd rng) (st_tree s1) \<noteq> None"
    using findLe_exists [of "st_tree s1" "snd rng" "snd rng"] endkey by auto
  have anchor: "findLe (range0 f) (st_tree s1) \<noteq> None"
    if "fromTok = Some f" "fst rng \<le> range0 f" "range1 f \<le> snd rng" for f
  proof -
    from that fd obtain d where "fd = Some (f, d)"
      by (auto simp: fromTokenDescriptorOf_def fromTokenIsInRange_def split: sum.splits if_splits)
    then have "map_of (st_tree s1) (range0 f) \<noteq> None"
      by (simp add: m1 treeMapAfter_apply)
    then show ?thesis
      using findLe_exists [of "st_tree s1" "range0 f" "range0 f"] by auto
  qed
  from setDesiredOffsets_succeeds [of rng s1 fromTok off frc, OF b anchor]
  obtain s2 where ok2: "setDesiredOffsets rng fromTok off frc s1 = Inr s2"
    by blast
  from setDesiredOffsets_Inr [OF inc1 ok2] obtain tail2 fd2 where
    tail2: "descriptorAt (st_tree s1) (snd rng) = Some tail2"
    and fd2: "fromTokenDescriptorOf rng fromTok s1 = Inr fd2"
    and inc2: "keysIncreasing (st_tree s2)"
    and m2: "map_of (st_tree s2) = treeMapAfter (map_of (st_tree s1)) rng new fd2 tail2"
    unfolding new_def by metis
  from tail2 descriptorAt_key [OF inc1 endkey] have t2: "tail2 = tail" by simp
  have "map_of (st_tree s2) = map_of (st_tree s1)"
  proof (cases fd)
    case None
    with fd have "\<not> fromTokenIsInRange rng fromTok"
      by (simp add: fromTokenDescriptorOf_None)
    with fd2 have "fd2 = None"
      by (auto simp: fromTokenDescriptorOf_def split: option.splits)
    with None show ?thesis
      by (auto simp: m2 m1 t2 treeMapAfter_apply fun_eq_iff)
  next
    case (Some fd')
    obtain f d where fd': "fd' = (f, d)" by (cases fd')
    from fd Some fd' have f: "fromTok = Some f" "fst rng \<le> range0 f" "range1 f \<le> snd rng"
      by (simp_all add: fromTokenDescriptorOf_Some)
    have key: "map_of (st_tree s1) (range0 f) =
        Some (if range0 f = snd rng then tail else if range0 f = range1 f then new else d)"
      by (simp add: m1 Some fd' treeMapAfter_apply)
    from f descriptorAt_key [OF inc1 key] have
      "fromTokenDescriptorOf rng fromTok s1 =
         Inr (Some (f, if range0 f = snd rng then tail else if range0 f = range1 f then new else d))"
      by (simp add: fromTokenDescriptorOf_Some)
    with fd2 have
      fd2': "fd2 = Some (f, if range0 f = snd rng then tail else if range0 f = range1 f then new else d)"
      by simp
    show ?thesis
      by (auto simp: m2 m1 t2 fd2' Some fd' treeMapAfter_apply fun_eq_iff)
  qed
  from keysIncreasing_map_of_unique [OF inc2 inc1 this]
  have "st_tree s2 = st_tree s1" .
  with setDesiredOffsets_other_fields [OF ok2] have "s2 = s1" by simp
  with ok2 show ?thesis by simp
qed

text \<open>
  C6.  After a call \<^verbatim>\<open>setDesiredOffsets(R, A, n)\<close> that returned, the same call again
  returns and leaves the storage as the first call left it: the tree is the same, and
  \<^verbatim>\<open>getDesiredIndent\<close> gives, for every token, what it gives after one call.
\<close>

theorem declaration_idempotent:
  assumes "keysIncreasing (st_tree s)"
    and "setDesiredOffsets rng fromTok off frc s = Inr s1"
  shows "\<exists>s2. setDesiredOffsets rng fromTok off frc s1 = Inr s2
              \<and> s2 = s1
              \<and> st_tree s2 = st_tree s1
              \<and> getDesiredIndent tok s2 = getDesiredIndent tok s1"
  using setDesiredOffsets_twice [OF assms] by simp

theorem declaration_idempotent_witness:
  "\<exists>s2. setDesiredOffsets (0, 9) (Some tokA) 1 False storage1 = Inr s2
         \<and> s2 = storage1
         \<and> st_tree s2 = st_tree storage1
         \<and> getDesiredIndent tokA s2 = getDesiredIndent tokA storage1"
proof -
  have inc: "keysIncreasing (st_tree storage0)"
    by (simp add: storage0_tree keysIncreasing_def)
  from declaration_idempotent [OF inc storage0_to_storage1] show ?thesis .
qed

section \<open>Unfolding and induction for the resolution\<close>

lemma getDesiredIndent_cached:
  "st_desiredIndentCache s tok = Some v \<Longrightarrow> getDesiredIndent tok s = Some (Inr (v, s))"
  by (subst getDesiredIndent.simps) simp

lemma getDesiredIndent_ignored:
  "st_desiredIndentCache s tok = None \<Longrightarrow> tok \<in> st_ignoredTokens s \<Longrightarrow>
   getDesiredIndent tok s =
     (if st_indentSize s = 0 then Some (Inl NonFinite)
      else Some (Inr (of_nat (length (getTokenIndent (st_tokenInfo s) tok)) / of_int (st_indentSize s),
                      cacheSet tok (of_nat (length (getTokenIndent (st_tokenInfo s) tok))
                                    / of_int (st_indentSize s)) s)))"
  by (subst getDesiredIndent.simps) (simp add: Let_def)

lemma getDesiredIndent_locked:
  "st_desiredIndentCache s tok = None \<Longrightarrow> tok \<notin> st_ignoredTokens s \<Longrightarrow>
   map_of (st_lockedFirstTokens s) tok = Some firstToken \<Longrightarrow>
   getDesiredIndent tok s =
     (case getFirstTokenOfLine (st_tokenInfo s) firstToken of
        None \<Rightarrow> Some (Inl TypeError)
      | Some lineToken \<Rightarrow>
          map_option (lockedIndent tok firstToken lineToken) (getDesiredIndent lineToken s))"
  by (subst getDesiredIndent.simps)
     (simp add: map_conv_bind_option comp_def split: option.splits)

lemma getDesiredIndent_descriptor:
  "st_desiredIndentCache s tok = None \<Longrightarrow> tok \<notin> st_ignoredTokens s \<Longrightarrow>
   map_of (st_lockedFirstTokens s) tok = None \<Longrightarrow>
   getDesiredIndent tok s =
     (case getOffsetDescriptor tok s of
        Inl e \<Rightarrow> Some (Inl e)
      | Inr offsetInfo \<Rightarrow>
          (case fromToken offsetInfo of
             None \<Rightarrow> Some (offsetIndent tok offsetInfo (Inr (0, s)))
           | Some f \<Rightarrow> map_option (offsetIndent tok offsetInfo) (getDesiredIndent f s)))"
  by (subst getDesiredIndent.simps)
     (simp add: map_conv_bind_option comp_def split: option.splits sum.splits)

text \<open>
  Induction over a call of \<^verbatim>\<open>getDesiredIndent\<close> that returns: one case for each way
  the call ends, with the hypothesis for the call it makes.
\<close>

lemma getDesiredIndent_induct [consumes 1, case_names cached ignored unlined locked undescribed
    unanchored anchored]:
  assumes ret: "getDesiredIndent tok s = Some r"
    and cached: "\<And>tok s v. st_desiredIndentCache s tok = Some v \<Longrightarrow> P tok s (Inr (v, s))"
    and ignored: "\<And>tok s. st_desiredIndentCache s tok = None \<Longrightarrow> tok \<in> st_ignoredTokens s \<Longrightarrow>
        P tok s (if st_indentSize s = 0 then Inl NonFinite
          else Inr (of_nat (length (getTokenIndent (st_tokenInfo s) tok)) / of_int (st_indentSize s),
                    cacheSet tok (of_nat (length (getTokenIndent (st_tokenInfo s) tok))
                                    / of_int (st_indentSize s)) s))"
    and unlined: "\<And>tok s firstToken. st_desiredIndentCache s tok = None \<Longrightarrow>
        tok \<notin> st_ignoredTokens s \<Longrightarrow> map_of (st_lockedFirstTokens s) tok = Some firstToken \<Longrightarrow>
        getFirstTokenOfLine (st_tokenInfo s) firstToken = None \<Longrightarrow> P tok s (Inl TypeError)"
    and locked: "\<And>tok s firstToken lineToken r'. st_desiredIndentCache s tok = None \<Longrightarrow>
        tok \<notin> st_ignoredTokens s \<Longrightarrow> map_of (st_lockedFirstTokens s) tok = Some firstToken \<Longrightarrow>
        getFirstTokenOfLine (st_tokenInfo s) firstToken = Some lineToken \<Longrightarrow>
        getDesiredIndent lineToken s = Some r' \<Longrightarrow> P lineToken s r' \<Longrightarrow>
        P tok s (lockedIndent tok firstToken lineToken r')"
    and undescribed: "\<And>tok s e. st_desiredIndentCache s tok = None \<Longrightarrow>
        tok \<notin> st_ignoredTokens s \<Longrightarrow> map_of (st_lockedFirstTokens s) tok = None \<Longrightarrow>
        getOffsetDescriptor tok s = Inl e \<Longrightarrow> P tok s (Inl e)"
    and unanchored: "\<And>tok s offsetInfo. st_desiredIndentCache s tok = None \<Longrightarrow>
        tok \<notin> st_ignoredTokens s \<Longrightarrow> map_of (st_lockedFirstTokens s) tok = None \<Longrightarrow>
        getOffsetDescriptor tok s = Inr offsetInfo \<Longrightarrow> fromToken offsetInfo = None \<Longrightarrow>
        P tok s (offsetIndent tok offsetInfo (Inr (0, s)))"
    and anchored: "\<And>tok s offsetInfo f r'. st_desiredIndentCache s tok = None \<Longrightarrow>
        tok \<notin> st_ignoredTokens s \<Longrightarrow> map_of (st_lockedFirstTokens s) tok = None \<Longrightarrow>
        getOffsetDescriptor tok s = Inr offsetInfo \<Longrightarrow> fromToken offsetInfo = Some f \<Longrightarrow>
        getDesiredIndent f s = Some r' \<Longrightarrow> P f s r' \<Longrightarrow>
        P tok s (offsetIndent tok offsetInfo r')"
  shows "P tok s r"
proof -
  define Q where "Q = (\<lambda>tok s r. P tok s r \<and> getDesiredIndent tok s = Some r)"
  have "Q tok s r"
  proof (rule getDesiredIndent.raw_induct [where P = Q, OF _ ret])
    fix gdi tok s r
    assume IH': "\<And>tok s r. gdi tok s = Some r \<Longrightarrow> Q tok s r"
      and body: "(case st_desiredIndentCache s tok of
        Some v \<Rightarrow> Some (Inr (v, s))
      | None \<Rightarrow>
          if tok \<in> st_ignoredTokens s then
            (if st_indentSize s = 0 then Some (Inl NonFinite)
             else let v = of_nat (length (getTokenIndent (st_tokenInfo s) tok))
                          / of_int (st_indentSize s)
                  in Some (Inr (v, cacheSet tok v s)))
          else
            (case map_of (st_lockedFirstTokens s) tok of
               Some firstToken \<Rightarrow>
                 (case getFirstTokenOfLine (st_tokenInfo s) firstToken of
                    None \<Rightarrow> Some (Inl TypeError)
                  | Some lineToken \<Rightarrow>
                      Option.bind (gdi lineToken s)
                        (\<lambda>r. Some (lockedIndent tok firstToken lineToken r)))
             | None \<Rightarrow>
                 (case getOffsetDescriptor tok s of
                    Inl e \<Rightarrow> Some (Inl e)
                  | Inr offsetInfo \<Rightarrow>
                      (case fromToken offsetInfo of
                         None \<Rightarrow> Some (offsetIndent tok offsetInfo (Inr (0, s)))
                       | Some f \<Rightarrow>
                           Option.bind (gdi f s)
                             (\<lambda>r. Some (offsetIndent tok offsetInfo r)))))) = Some r"
    have IH: "P tok s r \<and> getDesiredIndent tok s = Some r" if "gdi tok s = Some r" for tok s r
      using IH' [OF that] by (simp add: Q_def)
    show "Q tok s r"
    proof (cases "st_desiredIndentCache s tok")
      case (Some v)
      with body cached [OF Some] show ?thesis
        by (simp add: Q_def getDesiredIndent_cached)
    next
      case None
      show ?thesis
      proof (cases "tok \<in> st_ignoredTokens s")
        case True
        with body None ignored [OF None True] show ?thesis
          by (simp add: Q_def getDesiredIndent_ignored Let_def split: if_splits)
      next
        case False
        show ?thesis
        proof (cases "map_of (st_lockedFirstTokens s) tok")
          case lk: (Some firstToken)
          show ?thesis
          proof (cases "getFirstTokenOfLine (st_tokenInfo s) firstToken")
            case noline: None
            with body None False lk unlined [OF None False lk noline] show ?thesis
              by (simp add: Q_def getDesiredIndent_locked)
          next
            case line: (Some lineToken)
            from body None False lk line obtain r' where
              r': "gdi lineToken s = Some r'" and r: "r = lockedIndent tok firstToken lineToken r'"
              by (auto simp: bind_eq_Some_conv)
            from IH [OF r'] have "P lineToken s r'" "getDesiredIndent lineToken s = Some r'"
              by simp_all
            with locked [OF None False lk line] r None False lk line show ?thesis
              by (simp add: Q_def getDesiredIndent_locked)
          qed
        next
          case nolk: None
          show ?thesis
          proof (cases "getOffsetDescriptor tok s")
            case (Inl e)
            with body None False nolk undescribed [OF None False nolk Inl] show ?thesis
              by (simp add: Q_def getDesiredIndent_descriptor)
          next
            case (Inr offsetInfo)
            show ?thesis
            proof (cases "fromToken offsetInfo")
              case noanchor: None
              with body None False nolk Inr unanchored [OF None False nolk Inr noanchor]
              show ?thesis by (simp add: Q_def getDesiredIndent_descriptor)
            next
              case anchor: (Some f)
              from body None False nolk Inr anchor obtain r' where
                r': "gdi f s = Some r'" and r: "r = offsetIndent tok offsetInfo r'"
                by (auto simp: bind_eq_Some_conv)
              from IH [OF r'] have "P f s r'" "getDesiredIndent f s = Some r'"
                by simp_all
              with anchored [OF None False nolk Inr anchor] r None False nolk Inr anchor
              show ?thesis by (simp add: Q_def getDesiredIndent_descriptor)
            qed
          qed
        qed
      qed
    qed
  qed
  then show ?thesis by (simp add: Q_def)
qed

section \<open>The memo is never invalidated\<close>

lemma getDesiredIndent_cache_grows:
  assumes "getDesiredIndent tok s = Some r"
  shows "case r of
           Inl e \<Rightarrow> True
         | Inr (v, s') \<Rightarrow>
             s' = s\<lparr> st_desiredIndentCache := st_desiredIndentCache s' \<rparr>
           \<and> st_desiredIndentCache s \<subseteq>\<^sub>m st_desiredIndentCache s'
           \<and> st_desiredIndentCache s' tok = Some v"
  using assms
proof (induction rule: getDesiredIndent_induct)
  case (cached tok s v)
  then show ?case by simp
next
  case (ignored tok s)
  then show ?case by (auto simp: cacheSet_def map_le_def)
next
  case (unlined tok s firstToken)
  then show ?case by simp
next
  case (locked tok s firstToken lineToken r')
  show ?case
  proof (cases r')
    case (Inl e)
    then show ?thesis by (simp add: lockedIndent_def)
  next
    case (Inr p)
    obtain d s1 where p: "p = (d, s1)" by (cases p)
    from locked.IH Inr p have s1: "s1 = s\<lparr> st_desiredIndentCache := st_desiredIndentCache s1 \<rparr>"
      and le: "st_desiredIndentCache s \<subseteq>\<^sub>m st_desiredIndentCache s1"
      by simp_all
    from le locked.hyps(1) have "st_desiredIndentCache s \<subseteq>\<^sub>m (st_desiredIndentCache s1)(tok \<mapsto> w)" for w
      by (auto simp: map_le_def dom_def)
    moreover have "cacheSet tok w s1 = s\<lparr> st_desiredIndentCache := st_desiredIndentCache (cacheSet tok w s1) \<rparr>" for w
      by (subst s1) (simp add: cacheSet_def)
    ultimately show ?thesis
      by (simp add: Inr p lockedIndent_def Let_def cacheSet_def)
  qed
next
  case (undescribed tok s e)
  then show ?case by simp
next
  case (unanchored tok s offsetInfo)
  then show ?case by (auto simp: offsetIndent_def cacheSet_def map_le_def Let_def)
next
  case (anchored tok s offsetInfo f r')
  show ?case
  proof (cases r')
    case (Inl e)
    then show ?thesis by (simp add: offsetIndent_def)
  next
    case (Inr p)
    obtain d s1 where p: "p = (d, s1)" by (cases p)
    from anchored.IH Inr p have s1: "s1 = s\<lparr> st_desiredIndentCache := st_desiredIndentCache s1 \<rparr>"
      and le: "st_desiredIndentCache s \<subseteq>\<^sub>m st_desiredIndentCache s1"
      by simp_all
    from le anchored.hyps(1) have "st_desiredIndentCache s \<subseteq>\<^sub>m (st_desiredIndentCache s1)(tok \<mapsto> w)" for w
      by (auto simp: map_le_def dom_def)
    moreover have "cacheSet tok w s1 = s\<lparr> st_desiredIndentCache := st_desiredIndentCache (cacheSet tok w s1) \<rparr>" for w
      by (subst s1) (simp add: cacheSet_def)
    ultimately show ?thesis
      by (simp add: Inr p offsetIndent_def Let_def cacheSet_def)
  qed
qed

lemma getDesiredIndent_returns_cached:
  "getDesiredIndent tok s = Some (Inr (v, s')) \<Longrightarrow> st_desiredIndentCache s' tok = Some v"
  using getDesiredIndent_cache_grows [of tok s "Inr (v, s')"] by simp

lemma getDesiredIndent_cache_le:
  "getDesiredIndent tok s = Some (Inr (v, s')) \<Longrightarrow>
   st_desiredIndentCache s \<subseteq>\<^sub>m st_desiredIndentCache s'"
  using getDesiredIndent_cache_grows [of tok s "Inr (v, s')"] by simp

lemma getDesiredIndent_other_fields:
  "getDesiredIndent tok s = Some (Inr (v, s')) \<Longrightarrow>
   s' = s\<lparr> st_desiredIndentCache := st_desiredIndentCache s' \<rparr>"
  using getDesiredIndent_cache_grows [of tok s "Inr (v, s')"] by simp

lemma perform_cache_le:
  assumes "perform op s = Some (Inr s')"
  shows "st_desiredIndentCache s \<subseteq>\<^sub>m st_desiredIndentCache s'"
proof (cases op)
  case (SetDesiredOffsets rng fromTok off frc)
  with assms setDesiredOffsets_other_fields [of rng fromTok off frc s s'] show ?thesis
    by (metis map_le_refl offsetStorage.select_convs(5) offsetStorage.surjective
        offsetStorage.update_convs(3) perform.simps(1) option.inject)
next
  case (SetDesiredOffset tok fromTok off)
  with assms setDesiredOffsets_other_fields [of "(range0 tok, range1 tok)" fromTok off False s s']
  have "s' = s\<lparr> st_tree := st_tree s' \<rparr>" by (simp add: setDesiredOffset_def)
  then have "st_desiredIndentCache s' = st_desiredIndentCache s"
    by (metis offsetStorage.select_convs(5) offsetStorage.surjective offsetStorage.update_convs(3))
  then show ?thesis by simp
next
  case (MatchIndentOf baseToken offsetToken)
  with assms setDesiredOffsets_other_fields
    [of "(range0 offsetToken, range1 offsetToken)" "Some baseToken" 0 False s s']
  have "s' = s\<lparr> st_tree := st_tree s' \<rparr>" by (simp add: matchIndentOf_def)
  then have "st_desiredIndentCache s' = st_desiredIndentCache s"
    by (metis offsetStorage.select_convs(5) offsetStorage.surjective offsetStorage.update_convs(3))
  then show ?thesis by simp
next
  case (MatchOffsetOf baseToken offsetToken)
  with assms show ?thesis by (auto simp: matchOffsetOf_def)
next
  case (IgnoreToken tok)
  with assms show ?thesis by (auto simp: ignoreToken_def)
next
  case (GetDesiredIndent tok)
  with assms obtain v where "getDesiredIndent tok s = Some (Inr (v, s'))"
    by (cases "getDesiredIndent tok s") (auto simp: map_sum_def split: sum.splits)
  then show ?thesis by (rule getDesiredIndent_cache_le)
qed

lemma runOps_cache_le:
  "runOps ops s = Some (Inr s') \<Longrightarrow> st_desiredIndentCache s \<subseteq>\<^sub>m st_desiredIndentCache s'"
proof (induction ops arbitrary: s)
  case Nil
  then show ?case by simp
next
  case (Cons op ops)
  from Cons.prems obtain s1 where s1: "perform op s = Some (Inr s1)" "runOps ops s1 = Some (Inr s')"
    by (auto split: option.splits sum.splits)
  from perform_cache_le [OF s1(1)] Cons.IH [OF s1(2)] show ?case
    by (rule map_le_trans)
qed

text \<open>
  C10.  Once \<^verbatim>\<open>getDesiredIndent(t)\<close> has returned \<open>v\<close>, it returns \<open>v\<close> again, without
  changing the storage, after every run of operations of the storage
  (declarations, locks, ignores and other queries) that returns.
\<close>

theorem memo_never_invalidated:
  assumes "getDesiredIndent tok s = Some (Inr (v, s1))"
    and "runOps ops s1 = Some (Inr s2)"
  shows "getDesiredIndent tok s2 = Some (Inr (v, s2))"
proof -
  from assms(1) have "st_desiredIndentCache s1 tok = Some v"
    by (rule getDesiredIndent_returns_cached)
  with runOps_cache_le [OF assms(2)] have "st_desiredIndentCache s2 tok = Some v"
    by (auto simp: map_le_def dom_def)
  then show ?thesis by (rule getDesiredIndent_cached)
qed

lemmas storage_eval = storage0_def OffsetStorage_def cacheSet_def descInitial_def tokA_def tokB_def

lemmas indent_eval =
  getDesiredIndent_cached getDesiredIndent_ignored getDesiredIndent_locked
  getDesiredIndent_descriptor offsetIndent_def lockedIndent_def collapsedOffset_def
  getOffsetDescriptor_def getFirstTokenOfLine_def

lemma storage0_tokB:
  "getDesiredIndent tokB storage0 = Some (Inr (0, storage0B))"
  by (simp add: indent_eval tree_eval storage_eval storage0B_def)

lemma storage0B_to_storage2B:
  "runOps [SetDesiredOffsets (6, 9) (Some tokA) 1 False] storage0B = Some (Inr storage2B)"
  by (simp add: decl_eval tree_eval storage_eval storage0B_def storage2B_def tokA_def)

theorem memo_never_invalidated_witness:
  "getDesiredIndent tokB storage2B = Some (Inr (0, storage2B))"
  using memo_never_invalidated [OF storage0_tokB storage0B_to_storage2B] .

section \<open>Termination of the resolution\<close>

lemma dependency_None_returns:
  assumes "dependency s tok = None"
  shows "\<exists>r. getDesiredIndent tok s = Some r"
proof (cases "st_desiredIndentCache s tok")
  case (Some v)
  then show ?thesis by (simp add: getDesiredIndent_cached)
next
  case None
  show ?thesis
  proof (cases "tok \<in> st_ignoredTokens s")
    case True
    with None show ?thesis by (simp add: getDesiredIndent_ignored)
  next
    case False
    show ?thesis
    proof (cases "map_of (st_lockedFirstTokens s) tok")
      case (Some firstToken)
      with assms None False have "getFirstTokenOfLine (st_tokenInfo s) firstToken = None"
        by (simp add: dependency_def)
      with None False Some show ?thesis by (simp add: getDesiredIndent_locked)
    next
      case nolk: None
      show ?thesis
      proof (cases "getOffsetDescriptor tok s")
        case (Inl e)
        with None False nolk show ?thesis by (simp add: getDesiredIndent_descriptor)
      next
        case (Inr offsetInfo)
        with assms None False nolk have "fromToken offsetInfo = None"
          by (simp add: dependency_def)
        with None False nolk Inr show ?thesis by (simp add: getDesiredIndent_descriptor)
      qed
    qed
  qed
qed

lemma dependency_Some_returns:
  assumes "dependency s tok = Some u" and "getDesiredIndent u s = Some r'"
  shows "\<exists>r. getDesiredIndent tok s = Some r"
proof -
  from assms(1) have c: "st_desiredIndentCache s tok = None" and i: "tok \<notin> st_ignoredTokens s"
    by (auto simp: dependency_def split: option.splits if_splits)
  show ?thesis
  proof (cases "map_of (st_lockedFirstTokens s) tok")
    case (Some firstToken)
    with assms(1) c i have "getFirstTokenOfLine (st_tokenInfo s) firstToken = Some u"
      by (simp add: dependency_def)
    with c i Some assms(2) show ?thesis by (simp add: getDesiredIndent_locked)
  next
    case None
    with assms(1) c i obtain offsetInfo where
      "getOffsetDescriptor tok s = Inr offsetInfo" "fromToken offsetInfo = Some u"
      by (auto simp: dependency_def split: sum.splits)
    with c i None assms(2) show ?thesis by (simp add: getDesiredIndent_descriptor)
  qed
qed

lemma chain_end_returns:
  "resolutionChain s tok n = None \<Longrightarrow> \<exists>r. getDesiredIndent tok s = Some r"
proof (induction n arbitrary: tok)
  case 0
  then show ?case by simp
next
  case (Suc n)
  show ?case
  proof (cases "dependency s tok")
    case None
    then show ?thesis by (rule dependency_None_returns)
  next
    case (Some u)
    with Suc.prems have "resolutionChain s u n = None" by simp
    from Suc.IH [OF this] obtain r' where "getDesiredIndent u s = Some r'" ..
    with Some show ?thesis by (rule dependency_Some_returns)
  qed
qed

text \<open>The tokens that a call can recurse on come from the tree and from the lock table.\<close>

lemma getOffsetDescriptor_in_tree:
  "getOffsetDescriptor tok s = Inr d \<Longrightarrow> d \<in> snd ` set (st_tree s)"
  using rb_le_SomeD [of "range0 tok" "st_tree s"]
  by (auto simp: getOffsetDescriptor_def findLe_def split: option.splits)

lemma dependency_in_successors:
  assumes "dependency s tok = Some u"
  shows "u \<in> Some -` (fromToken ` snd ` set (st_tree s))
           \<union> Some -` (getFirstTokenOfLine (st_tokenInfo s) ` snd ` set (st_lockedFirstTokens s))"
proof (cases "map_of (st_lockedFirstTokens s) tok")
  case (Some firstToken)
  then have "firstToken \<in> snd ` set (st_lockedFirstTokens s)"
    by (force dest: map_of_SomeD)
  moreover from assms Some have "getFirstTokenOfLine (st_tokenInfo s) firstToken = Some u"
    by (auto simp: dependency_def split: option.splits if_splits)
  ultimately show ?thesis by force
next
  case None
  with assms obtain d where d: "getOffsetDescriptor tok s = Inr d" "fromToken d = Some u"
    by (auto simp: dependency_def split: option.splits if_splits sum.splits)
  from getOffsetDescriptor_in_tree [OF d(1)] d(2) show ?thesis by force
qed

lemma finite_successors:
  "finite (Some -` (fromToken ` snd ` set (st_tree s))
           \<union> Some -` (getFirstTokenOfLine (st_tokenInfo s) ` snd ` set (st_lockedFirstTokens s)))"
  by (auto intro!: finite_vimageI)

lemma chain_in_successors:
  "resolutionChain s tok (Suc n) = Some u \<Longrightarrow>
   u \<in> Some -` (fromToken ` snd ` set (st_tree s))
       \<union> Some -` (getFirstTokenOfLine (st_tokenInfo s) ` snd ` set (st_lockedFirstTokens s))"
proof (induction n arbitrary: tok)
  case 0
  then show ?case
    using dependency_in_successors [of s tok u] by (auto split: option.splits)
next
  case (Suc n)
  from Suc.prems obtain t' where "dependency s tok = Some t'" "resolutionChain s t' (Suc n) = Some u"
    by (auto split: option.splits)
  with Suc.IH show ?case by blast
qed

lemma acyclic_chain_ends:
  assumes "neverRevisits (resolutionChain s tok)"
  shows "\<exists>n. resolutionChain s tok n = None"
proof (rule ccontr)
  assume "\<not> (\<exists>n. resolutionChain s tok n = None)"
  then have all: "\<And>n. \<exists>u. resolutionChain s tok n = Some u" by auto
  define S where "S = Some -` (fromToken ` snd ` set (st_tree s))
       \<union> Some -` (getFirstTokenOfLine (st_tokenInfo s) ` snd ` set (st_lockedFirstTokens s))"
  define f where "f n = the (resolutionChain s tok (Suc n))" for n
  have fS: "f n \<in> S" for n
    using all [of "Suc n"] chain_in_successors [of s tok n]
    unfolding f_def S_def by (metis option.sel)
  have "inj f"
  proof (rule injI)
    fix i j assume eq: "f i = f j"
    show "i = j"
    proof (rule ccontr)
      assume "i \<noteq> j"
      then consider "i < j" | "j < i" by linarith
      then show False
      proof cases
        case 1
        from all [of "Suc i"] obtain u where u: "resolutionChain s tok (Suc i) = Some u" ..
        from all [of "Suc j"] obtain w where w: "resolutionChain s tok (Suc j) = Some w" ..
        from eq u w have "u = w" by (simp add: f_def)
        with assms 1 u w show False
          unfolding neverRevisits_def by (metis Suc_less_eq)
      next
        case 2
        from all [of "Suc i"] obtain u where u: "resolutionChain s tok (Suc i) = Some u" ..
        from all [of "Suc j"] obtain w where w: "resolutionChain s tok (Suc j) = Some w" ..
        from eq u w have "u = w" by (simp add: f_def)
        with assms 2 u w show False
          unfolding neverRevisits_def by (metis Suc_less_eq)
      qed
    qed
  qed
  moreover have "range f \<subseteq> S" using fS by auto
  moreover have "finite S" unfolding S_def by (rule finite_successors)
  ultimately have "finite (UNIV :: nat set)"
    by (metis finite_imageD finite_subset)
  then show False by simp
qed

text \<open>
  C9 (amended).  \<^verbatim>\<open>getDesiredIndent(t)\<close> returns (a value or an exception) when the
  chain of tokens that the resolution follows from \<open>t\<close> never revisits a token.  The
  chain goes, from a token that is neither cached nor ignored, to the first token of the
  line of its lock's base when it is locked, and to the anchor of its governing descriptor
  otherwise.
\<close>

theorem resolution_terminates:
  assumes "neverRevisits (resolutionChain s tok)"
  shows "\<exists>r. getDesiredIndent tok s = Some r"
proof -
  from acyclic_chain_ends [OF assms] obtain n where "resolutionChain s tok n = None" ..
  then show ?thesis by (rule chain_end_returns)
qed

lemma storage0_to_storage2:
  "setDesiredOffsets (6, 9) (Some tokA) 1 False storage0 = Inr storage2"
  by (simp add: decl_eval tree_eval storage_eval storage2_def)

lemma storage2_chain:
  "resolutionChain storage2 tokB 0 = Some tokB"
  "resolutionChain storage2 tokB (Suc 0) = Some tokA"
  "resolutionChain storage2 tokB (Suc (Suc n)) = None"
  by (simp_all add: dependency_def getOffsetDescriptor_def tree_eval storage_eval storage2_def)

theorem resolution_terminates_witness:
  "\<exists>r. getDesiredIndent tokB storage2 = Some r"
proof -
  have "resolutionChain storage2 tokB j \<noteq> Some u"
    if "i < j" and "resolutionChain storage2 tokB i = Some u" for i j u
  proof (cases j)
    case 0
    with that show ?thesis by simp
  next
    case (Suc j')
    show ?thesis
    proof (cases j')
      case 0
      with Suc that have "i = 0" by simp
      with that have "u = tokB" by (simp add: storage2_chain)
      moreover have "tokA \<noteq> tokB" by (simp add: tokA_def tokB_def)
      ultimately show ?thesis using Suc 0 storage2_chain(2)
        by (simp del: resolutionChain.simps)
    next
      case (Suc j'')
      with \<open>j = Suc j'\<close> storage2_chain(3) [of j''] show ?thesis
        by (simp del: resolutionChain.simps)
    qed
  qed
  then have "neverRevisits (resolutionChain storage2 tokB)"
    unfolding neverRevisits_def by blast
  then show ?thesis by (rule resolution_terminates)
qed

lemma storageLock_fields:
  "st_desiredIndentCache storageLock tokB = None"
  "tokB \<notin> st_ignoredTokens storageLock"
  "map_of (st_lockedFirstTokens storageLock) tokB = Some tokB"
  "getFirstTokenOfLine (st_tokenInfo storageLock) tokB = Some tokB"
  "getOffsetDescriptor tokB storageLock = Inr descInitial"
  by (simp_all add: storageLock_def matchOffsetOf_def OffsetStorage_def tokenInfoB_def
      getFirstTokenOfLine_def getOffsetDescriptor_def tree_eval descInitial_def tokB_def)

lemma storageLock_never_returns:
  "getDesiredIndent tok s = Some r \<Longrightarrow> \<not> (tok = tokB \<and> s = storageLock)"
proof (induction rule: getDesiredIndent_induct)
  case (locked tok s firstToken lineToken r')
  then show ?case using storageLock_fields by auto
qed (use storageLock_fields in auto)

text \<open>
  C9 as stated fails.  The token \<open>tokB\<close> is the first token of its line and is locked
  onto itself; its descriptor has no anchor, so the chain of anchors from it ends at once,
  yet \<^verbatim>\<open>getDesiredIndent\<close> calls itself on the same token for ever.
\<close>

theorem termination_by_anchor_chain_counterexample:
  "neverRevisits (anchorChain storageLock tokB) \<and> getDesiredIndent tokB storageLock = None"
proof
  have "anchorChain storageLock tokB (Suc n) = None" for n
    by (simp add: storageLock_fields descInitial_def)
  then have "anchorChain storageLock tokB j \<noteq> Some u" if "i < j" for i j u
    using that by (cases j) simp_all
  then show "neverRevisits (anchorChain storageLock tokB)"
    unfolding neverRevisits_def by blast
  show "getDesiredIndent tokB storageLock = None"
    using storageLock_never_returns [of tokB storageLock] by (cases "getDesiredIndent tokB storageLock") auto
qed

section \<open>Same-line collapse and forced offsets\<close>

lemma map_sum_id_add_zero: "map_sum id (\<lambda>v. (0::rat) + v) = id"
  by (auto simp: fun_eq_iff map_sum_def split: sum.splits)

lemma resolve_descriptor:
  assumes "st_desiredIndentCache s tok = None" and "tok \<notin> st_ignoredTokens s"
    and "map_of (st_lockedFirstTokens s) tok = None"
    and "descriptorAt (st_tree s) (range0 tok) = Some d"
  shows "resolve s tok =
     (case fromToken d of
        None \<Rightarrow> Some (Inr (collapsedOffset d tok + 0))
      | Some f \<Rightarrow> map_option (map_sum id (\<lambda>v. collapsedOffset d tok + v)) (resolve s f))"
proof -
  from assms(4) have "getOffsetDescriptor tok s = Inr d"
    by (simp add: getOffsetDescriptor_eq)
  with assms(1-3) show ?thesis
    by (auto simp: resolve_def getDesiredIndent_descriptor offsetIndent_def Let_def
        option.map_comp comp_def map_sum_def
        split: option.splits sum.splits intro!: option.map_cong)
qed

text \<open>
  C3 (amended).  After \<^verbatim>\<open>setDesiredOffsets(R, A, 1)\<close> without force, a token \<open>t\<close>
  that starts in \<open>R\<close>, is governed by the new descriptor, starts on the line of \<open>A\<close>, and is
  neither ignored nor locked nor already in the cache, resolves to what \<open>A\<close> resolves to.
\<close>

theorem same_line_collapse:
  assumes "setDesiredOffsets rng (Some A) 1 False s = Inr s'"
    and "fst rng \<le> range0 tok" and "range0 tok < snd rng"
    and "descriptorAt (st_tree s') (range0 tok) =
           Some \<lparr> offset = 1, fromToken = Some A, force = False \<rparr>"
    and "loc_start_line tok = loc_start_line A"
    and "tok \<notin> st_ignoredTokens s'"
    and "map_of (st_lockedFirstTokens s') tok = None"
    and "st_desiredIndentCache s' tok = None"
  shows "resolve s' tok = resolve s' A"
  using resolve_descriptor [OF assms(8,6,7,4)] assms(5)
  by (simp add: collapsedOffset_def map_sum_id_add_zero option.map_id)

text \<open>
  C4 (amended).  With force, such a token resolves to one more than \<open>A\<close> does.
\<close>

theorem forced_offset_not_collapsed:
  assumes "setDesiredOffsets rng (Some A) 1 True s = Inr s'"
    and "fst rng \<le> range0 tok" and "range0 tok < snd rng"
    and "descriptorAt (st_tree s') (range0 tok) =
           Some \<lparr> offset = 1, fromToken = Some A, force = True \<rparr>"
    and "loc_start_line tok = loc_start_line A"
    and "tok \<notin> st_ignoredTokens s'"
    and "map_of (st_lockedFirstTokens s') tok = None"
    and "st_desiredIndentCache s' tok = None"
  shows "resolve s' tok = map_option (map_sum id (\<lambda>v. v + 1)) (resolve s' A)"
proof -
  have "(+) (1::rat) = (\<lambda>v. v + 1)" by (simp add: fun_eq_iff)
  with resolve_descriptor [OF assms(8,6,7,4)] show ?thesis
    by (simp add: collapsedOffset_def)
qed

lemmas tokens_eval = tokA_def tokB_def tokC_def tokI_def tokJ_def

lemma storage0_to_storage3:
  "setDesiredOffsets (5, 9) (Some tokA) 1 False storage0 = Inr storage3"
  by (simp add: decl_eval tree_eval storage_eval storage3_def)

lemma storage0_to_storage3F:
  "setDesiredOffsets (5, 9) (Some tokA) 1 True storage0 = Inr storage3F"
  by (simp add: decl_eval tree_eval storage_eval storage3F_def)

lemma storage3_tokA: "resolve storage3 tokA = Some (Inr 0)"
  by (simp add: resolve_def indent_eval tree_eval storage_eval storage3_def)

lemma storage3F_tokA: "resolve storage3F tokA = Some (Inr 0)"
  by (simp add: resolve_def indent_eval tree_eval storage_eval storage3F_def)

theorem same_line_collapse_witness:
  "resolve storage3 tokC = resolve storage3 tokA \<and> resolve storage3 tokA = Some (Inr 0)"
proof -
  have "resolve storage3 tokC = resolve storage3 tokA"
    by (rule same_line_collapse [OF storage0_to_storage3])
       (simp_all add: tree_eval storage_eval storage3_def tokens_eval)
  with storage3_tokA show ?thesis by simp
qed

theorem forced_offset_not_collapsed_witness:
  "resolve storage3F tokC = map_option (map_sum id (\<lambda>v. v + 1)) (resolve storage3F tokA)
   \<and> resolve storage3F tokC = Some (Inr 1)"
proof -
  have "resolve storage3F tokC = map_option (map_sum id (\<lambda>v. v + 1)) (resolve storage3F tokA)"
    by (rule forced_offset_not_collapsed [OF storage0_to_storage3F])
       (simp_all add: tree_eval storage_eval storage3F_def tokens_eval)
  with storage3F_tokA show ?thesis by simp
qed

lemma ignore_tokI:
  "ignoreToken tokI (OffsetStorage tokenInfoI n) =
     (OffsetStorage tokenInfoI n)\<lparr> st_ignoredTokens := {tokI} \<rparr>"
  by (simp add: ignoreToken_def isFirstTokenOfLine_def getFirstTokenOfLine_def
      OffsetStorage_def tokenInfoI_def tokI_def)

lemmas tokens_eval2 = tokens_eval tokE_def tokF_def tokZ_def

lemma storageLk_call:
  "setDesiredOffsets (5, 9) (Some tokA) 1 frc (matchOffsetOf tokF tokC (OffsetStorage tokenInfoL 4))
     = Inr (storageLk frc)"
  by (simp add: decl_eval tree_eval storageLk_def matchOffsetOf_def OffsetStorage_def
      descInitial_def tokA_def)

lemma storageLk_facts:
  "descriptorAt (st_tree (storageLk frc)) (range0 tokC)
     = Some \<lparr> offset = 1, fromToken = Some tokA, force = frc \<rparr>"
  "resolve (storageLk frc) tokA = Some (Inr 0)"
  "resolve (storageLk frc) tokC = Some (Inr 2)"
proof -
  let ?s = "storageLk frc"
  show "descriptorAt (st_tree ?s) (range0 tokC)
     = Some \<lparr> offset = 1, fromToken = Some tokA, force = frc \<rparr>"
    by (simp add: storageLk_def tree_eval tokC_def)
  show "resolve ?s tokA = Some (Inr 0)"
    by (simp add: resolve_def indent_eval tree_eval storageLk_def matchOffsetOf_def
        OffsetStorage_def descInitial_def cacheSet_def tokens_eval2)
  have c: "st_desiredIndentCache ?s tokC = None" "tokC \<notin> st_ignoredTokens ?s"
    "map_of (st_lockedFirstTokens ?s) tokC = Some tokF"
    "getFirstTokenOfLine (st_tokenInfo ?s) tokF = Some tokE"
    by (simp_all add: storageLk_def matchOffsetOf_def OffsetStorage_def tokenInfoL_def
        getFirstTokenOfLine_def tokF_def)
  have e: "getDesiredIndent tokE ?s = Some (Inr (0, cacheSet tokE 0 ?s))"
    by (simp add: indent_eval tree_eval storageLk_def matchOffsetOf_def
        OffsetStorage_def descInitial_def cacheSet_def tokens_eval2)
  have "st_indentSize (cacheSet tokE 0 ?s) = 4"
    by (simp add: cacheSet_def storageLk_def matchOffsetOf_def OffsetStorage_def)
  with c e show "resolve ?s tokC = Some (Inr 2)"
    by (simp add: resolve_def getDesiredIndent_locked lockedIndent_def tokE_def tokF_def)
qed

lemma storageQ0_run:
  "runOps [SetDesiredOffsets (6, 8) (Some tokE) 2 False, GetDesiredIndent tokC] storage0
     = Some (Inr storageQ0)"
proof -
  let ?s = "storage0\<lparr> st_tree :=
     [(0, descInitial),
      (6, \<lparr> offset = 2, fromToken = Some tokE, force = False \<rparr>),
      (8, descInitial)] \<rparr>"
  have d: "setDesiredOffsets (6, 8) (Some tokE) 2 False storage0 = Inr ?s"
    by (simp add: decl_eval tree_eval storage_eval tokE_def)
  have "getDesiredIndent tokE ?s = Some (Inr (0, cacheSet tokE 0 ?s))"
    by (simp add: indent_eval tree_eval storage_eval tokE_def)
  then have "getDesiredIndent tokC ?s = Some (Inr (2, storageQ0))"
    by (simp add: indent_eval tree_eval storage_eval storageQ0_def tokC_def tokE_def)
  with d show ?thesis by simp
qed

lemma storageQ_call:
  "setDesiredOffsets (5, 9) (Some tokA) 1 frc storageQ0 = Inr (storageQ frc)"
  by (simp add: decl_eval tree_eval storageQ_def storageQ0_def storage_eval)

lemma storageQ_facts:
  "descriptorAt (st_tree (storageQ frc)) (range0 tokC)
     = Some \<lparr> offset = 1, fromToken = Some tokA, force = frc \<rparr>"
  "resolve (storageQ frc) tokA = Some (Inr 0)"
  "resolve (storageQ frc) tokC = Some (Inr 2)"
  by (simp_all add: resolve_def indent_eval tree_eval storageQ_def storageQ0_def storage_eval
      tokC_def tokE_def)

text \<open>
  C3 as stated fails for a token that is ignored, locked or already in the cache.  Each
  time the token starts in the range, is governed by the new descriptor and is on the
  line of the anchor.  The ignored \<open>tokI\<close> resolves to its own four spaces, one level,
  and its anchor to 0; the locked \<open>tokC\<close> resolves to the column of \<open>tokF\<close>, two levels,
  and its anchor to 0; the \<open>tokC\<close> that was queried before the declaration keeps the
  2 of that query, and its anchor resolves to 0.
\<close>

theorem same_line_collapse_counterexample:
  "setDesiredOffsets (4, 5) (Some tokJ) 1 False (ignoreToken tokI (OffsetStorage tokenInfoI 4))
     = Inr storageI
   \<and> 4 \<le> range0 tokI \<and> range0 tokI < 5
   \<and> descriptorAt (st_tree storageI) (range0 tokI)
       = Some \<lparr> offset = 1, fromToken = Some tokJ, force = False \<rparr>
   \<and> loc_start_line tokI = loc_start_line tokJ
   \<and> resolve storageI tokI = Some (Inr 1)
   \<and> resolve storageI tokJ = Some (Inr 0)
   \<and> resolve storageI tokI \<noteq> resolve storageI tokJ
   \<and> setDesiredOffsets (5, 9) (Some tokA) 1 False
         (matchOffsetOf tokF tokC (OffsetStorage tokenInfoL 4)) = Inr (storageLk False)
   \<and> 5 \<le> range0 tokC \<and> range0 tokC < 9
   \<and> descriptorAt (st_tree (storageLk False)) (range0 tokC)
       = Some \<lparr> offset = 1, fromToken = Some tokA, force = False \<rparr>
   \<and> loc_start_line tokC = loc_start_line tokA
   \<and> resolve (storageLk False) tokC = Some (Inr 2)
   \<and> resolve (storageLk False) tokA = Some (Inr 0)
   \<and> runOps [SetDesiredOffsets (6, 8) (Some tokE) 2 False, GetDesiredIndent tokC] storage0
       = Some (Inr storageQ0)
   \<and> setDesiredOffsets (5, 9) (Some tokA) 1 False storageQ0 = Inr (storageQ False)
   \<and> descriptorAt (st_tree (storageQ False)) (range0 tokC)
       = Some \<lparr> offset = 1, fromToken = Some tokA, force = False \<rparr>
   \<and> resolve (storageQ False) tokC = Some (Inr 2)
   \<and> resolve (storageQ False) tokA = Some (Inr 0)"
proof -
  have "setDesiredOffsets (4, 5) (Some tokJ) 1 False (ignoreToken tokI (OffsetStorage tokenInfoI 4))
     = Inr storageI
   \<and> 4 \<le> range0 tokI \<and> range0 tokI < 5
   \<and> descriptorAt (st_tree storageI) (range0 tokI)
       = Some \<lparr> offset = 1, fromToken = Some tokJ, force = False \<rparr>
   \<and> loc_start_line tokI = loc_start_line tokJ
   \<and> resolve storageI tokI = Some (Inr 1)
   \<and> resolve storageI tokJ = Some (Inr 0)
   \<and> resolve storageI tokI \<noteq> resolve storageI tokJ"
    unfolding storageI_def ignore_tokI
    by (simp add: decl_eval tree_eval resolve_def indent_eval
        OffsetStorage_def descInitial_def cacheSet_def tokens_eval tokenInfoI_def
        getTokenIndent_def js_slice_def)
  moreover have "5 \<le> range0 tokC" "range0 tokC < 9" "loc_start_line tokC = loc_start_line tokA"
    by (simp_all add: tokens_eval)
  ultimately show ?thesis
    using storageLk_call [of False] storageLk_facts [of False] storageQ0_run
      storageQ_call [of False] storageQ_facts [of False]
    by simp
qed

text \<open>
  C4 as stated fails for a token that is ignored, locked or already in the cache: the
  ignored \<open>tokI\<close> resolves to its own four spaces, two levels of size 2; the locked
  \<open>tokC\<close> and the \<open>tokC\<close> queried before the declaration resolve to 2; the anchor
  resolves to 0 each time, and one more than that is 1.
\<close>

theorem forced_offset_counterexample:
  "setDesiredOffsets (4, 5) (Some tokJ) 1 True (ignoreToken tokI (OffsetStorage tokenInfoI 2))
     = Inr storageIF
   \<and> 4 \<le> range0 tokI \<and> range0 tokI < 5
   \<and> descriptorAt (st_tree storageIF) (range0 tokI)
       = Some \<lparr> offset = 1, fromToken = Some tokJ, force = True \<rparr>
   \<and> loc_start_line tokI = loc_start_line tokJ
   \<and> resolve storageIF tokI = Some (Inr 2)
   \<and> resolve storageIF tokJ = Some (Inr 0)
   \<and> resolve storageIF tokI \<noteq> map_option (map_sum id (\<lambda>v. v + 1)) (resolve storageIF tokJ)
   \<and> setDesiredOffsets (5, 9) (Some tokA) 1 True
         (matchOffsetOf tokF tokC (OffsetStorage tokenInfoL 4)) = Inr (storageLk True)
   \<and> 5 \<le> range0 tokC \<and> range0 tokC < 9
   \<and> descriptorAt (st_tree (storageLk True)) (range0 tokC)
       = Some \<lparr> offset = 1, fromToken = Some tokA, force = True \<rparr>
   \<and> loc_start_line tokC = loc_start_line tokA
   \<and> resolve (storageLk True) tokC = Some (Inr 2)
   \<and> resolve (storageLk True) tokA = Some (Inr 0)
   \<and> runOps [SetDesiredOffsets (6, 8) (Some tokE) 2 False, GetDesiredIndent tokC] storage0
       = Some (Inr storageQ0)
   \<and> setDesiredOffsets (5, 9) (Some tokA) 1 True storageQ0 = Inr (storageQ True)
   \<and> descriptorAt (st_tree (storageQ True)) (range0 tokC)
       = Some \<lparr> offset = 1, fromToken = Some tokA, force = True \<rparr>
   \<and> resolve (storageQ True) tokC = Some (Inr 2)
   \<and> resolve (storageQ True) tokA = Some (Inr 0)"
proof -
  have "setDesiredOffsets (4, 5) (Some tokJ) 1 True (ignoreToken tokI (OffsetStorage tokenInfoI 2))
     = Inr storageIF
   \<and> 4 \<le> range0 tokI \<and> range0 tokI < 5
   \<and> descriptorAt (st_tree storageIF) (range0 tokI)
       = Some \<lparr> offset = 1, fromToken = Some tokJ, force = True \<rparr>
   \<and> loc_start_line tokI = loc_start_line tokJ
   \<and> resolve storageIF tokI = Some (Inr 2)
   \<and> resolve storageIF tokJ = Some (Inr 0)
   \<and> resolve storageIF tokI \<noteq> map_option (map_sum id (\<lambda>v. v + 1)) (resolve storageIF tokJ)"
    unfolding storageIF_def ignore_tokI
    by (simp add: decl_eval tree_eval resolve_def indent_eval
        OffsetStorage_def descInitial_def cacheSet_def tokens_eval tokenInfoI_def
        getTokenIndent_def js_slice_def)
  moreover have "5 \<le> range0 tokC" "range0 tokC < 9" "loc_start_line tokC = loc_start_line tokA"
    by (simp_all add: tokens_eval)
  ultimately show ?thesis
    using storageLk_call [of True] storageLk_facts [of True] storageQ0_run
      storageQ_call [of True] storageQ_facts [of True]
    by simp
qed

section \<open>The default resolution\<close>

lemma setDesiredOffsets_frame_below:
  assumes inc: "keysIncreasing (st_tree s)"
    and ok: "setDesiredOffsets (a, b) fromTok off frc s = Inr s'"
    and ab: "a \<le> b" and p: "p < a"
    and wf: "\<And>f. fromTok = Some f \<Longrightarrow> range0 f \<le> range1 f"
  shows "descriptorAt (st_tree s') p = descriptorAt (st_tree s) p"
proof -
  from setDesiredOffsets_Inr [OF inc ok] obtain tail fd where
    fd: "fromTokenDescriptorOf (a, b) fromTok s = Inr fd"
    and inc': "keysIncreasing (st_tree s')"
    and m: "map_of (st_tree s') =
         treeMapAfter (map_of (st_tree s)) (a, b)
           \<lparr> offset = off, fromToken = fromTok, force = frc \<rparr> fd tail"
    by metis
  have "map_of (st_tree s') j = map_of (st_tree s) j" if "j \<le> p" for j
    unfolding m using ab p that fd wf
    by (intro treeMapAfter_below) (auto simp: fromTokenDescriptorOf_Some)
  then have "findLe p (st_tree s') = findLe p (st_tree s)"
    by (intro findLe_cong_below [OF inc inc']) simp
  then show ?thesis by (simp add: descriptorAt_def)
qed

lemma setDesiredOffsets_frame_outside:
  assumes "keysIncreasing (st_tree s)"
    and "setDesiredOffsets (a, b) fromTok off frc s = Inr s'"
    and "a \<le> b" and "p < a \<or> b \<le> p"
    and "\<And>f. fromTok = Some f \<Longrightarrow> range0 f \<le> range1 f"
  shows "descriptorAt (st_tree s') p = descriptorAt (st_tree s) p"
  using assms setDesiredOffsets_frame_above [of s a b fromTok off frc s' p]
    setDesiredOffsets_frame_below [of s a b fromTok off frc s' p]
  by blast

lemma setDesiredOffsets_keysIncreasing:
  "keysIncreasing (st_tree s) \<Longrightarrow> setDesiredOffsets rng fromTok off frc s = Inr s' \<Longrightarrow>
   keysIncreasing (st_tree s')"
  by (erule (1) setDesiredOffsets_Inr)

text \<open>A query keeps the cache of an uncovered token at nothing or 0.\<close>

lemma getDesiredIndent_uncovered:
  assumes "getDesiredIndent u s = Some r"
    and "descriptorAt (st_tree s) (range0 tok) = Some \<lparr> offset = 0, fromToken = None, force = False \<rparr>"
    and "tok \<in> st_ignoredTokens s \<or> map_of (st_lockedFirstTokens s) tok \<noteq> None
         \<or> st_desiredIndentCache s tok = None \<or> st_desiredIndentCache s tok = Some 0"
  shows "case r of
           Inl e \<Rightarrow> True
         | Inr (v, s') \<Rightarrow>
             tok \<in> st_ignoredTokens s' \<or> map_of (st_lockedFirstTokens s') tok \<noteq> None
             \<or> st_desiredIndentCache s' tok = None \<or> st_desiredIndentCache s' tok = Some 0"
  using assms
proof (induction rule: getDesiredIndent_induct)
  case (cached u s v)
  then show ?case by simp
next
  case (ignored u s)
  then show ?case by (auto simp: cacheSet_def)
next
  case (unlined u s firstToken)
  then show ?case by simp
next
  case (locked u s firstToken lineToken r')
  show ?case
  proof (cases r')
    case (Inl e)
    then show ?thesis by (simp add: lockedIndent_def)
  next
    case (Inr p)
    obtain d s1 where p: "p = (d, s1)" by (cases p)
    from locked.hyps(5) Inr p have s1: "s1 = s\<lparr> st_desiredIndentCache := st_desiredIndentCache s1 \<rparr>"
      by (simp add: getDesiredIndent_other_fields)
    from s1 have same: "st_ignoredTokens s1 = st_ignoredTokens s"
      "st_lockedFirstTokens s1 = st_lockedFirstTokens s"
      by (metis offsetStorage.select_convs(6) offsetStorage.surjective offsetStorage.update_convs(5),
          metis offsetStorage.select_convs(4) offsetStorage.surjective offsetStorage.update_convs(5))
    from locked.IH [OF locked.prems] Inr p have
      "tok \<in> st_ignoredTokens s1 \<or> map_of (st_lockedFirstTokens s1) tok \<noteq> None
         \<or> st_desiredIndentCache s1 tok = None \<or> st_desiredIndentCache s1 tok = Some 0"
      by simp
    with same locked.hyps(3) show ?thesis
      by (auto simp: Inr p lockedIndent_def Let_def cacheSet_def)
  qed
next
  case (undescribed u s e)
  then show ?case by simp
next
  case (unanchored u s offsetInfo)
  show ?case
  proof (cases "u = tok")
    case True
    with unanchored.hyps(4) unanchored.prems(1)
    have "offsetInfo = \<lparr> offset = 0, fromToken = None, force = False \<rparr>"
      by (simp add: getOffsetDescriptor_eq)
    with True show ?thesis
      by (simp add: offsetIndent_def collapsedOffset_def cacheSet_def)
  next
    case False
    with unanchored.prems(2) show ?thesis
      by (auto simp: offsetIndent_def Let_def cacheSet_def)
  qed
next
  case (anchored u s offsetInfo f r')
  have ne: "u \<noteq> tok"
  proof
    assume "u = tok"
    with anchored.hyps(4) anchored.prems(1)
    have "offsetInfo = \<lparr> offset = 0, fromToken = None, force = False \<rparr>"
      by (simp add: getOffsetDescriptor_eq)
    with anchored.hyps(5) show False by simp
  qed
  show ?case
  proof (cases r')
    case (Inl e)
    then show ?thesis by (simp add: offsetIndent_def)
  next
    case (Inr p)
    obtain d s1 where p: "p = (d, s1)" by (cases p)
    from anchored.IH [OF anchored.prems] Inr p have
      "tok \<in> st_ignoredTokens s1 \<or> map_of (st_lockedFirstTokens s1) tok \<noteq> None
         \<or> st_desiredIndentCache s1 tok = None \<or> st_desiredIndentCache s1 tok = Some 0"
      by simp
    with ne show ?thesis
      by (auto simp: Inr p offsetIndent_def Let_def cacheSet_def)
  qed
qed

lemma uncovered_tree_update:
  assumes "uncovered tok s" and "s' = s\<lparr> st_tree := st_tree s' \<rparr>"
    and "keysIncreasing (st_tree s')"
    and "descriptorAt (st_tree s') (range0 tok) = descriptorAt (st_tree s) (range0 tok)"
  shows "uncovered tok s'"
proof -
  from assms(2) have "st_ignoredTokens s' = st_ignoredTokens s"
    "st_lockedFirstTokens s' = st_lockedFirstTokens s"
    "st_desiredIndentCache s' = st_desiredIndentCache s"
    by (metis offsetStorage.select_convs(6) offsetStorage.surjective offsetStorage.update_convs(3),
        metis offsetStorage.select_convs(4) offsetStorage.surjective offsetStorage.update_convs(3),
        metis offsetStorage.select_convs(5) offsetStorage.surjective offsetStorage.update_convs(3))
  with assms(1,3,4) show ?thesis by (simp add: uncovered_def)
qed

lemma setDesiredOffsets_uncovered:
  assumes u: "uncovered tok s"
    and ok: "setDesiredOffsets (a, b) fromTok off frc s = Inr s'"
    and ab: "a \<le> b" and out: "range0 tok < a \<or> b \<le> range0 tok"
    and wf: "\<And>f. fromTok = Some f \<Longrightarrow> range0 f \<le> range1 f"
  shows "uncovered tok s'"
proof -
  from u have inc: "keysIncreasing (st_tree s)" by (simp add: uncovered_def)
  show ?thesis
    using u setDesiredOffsets_other_fields [OF ok] setDesiredOffsets_keysIncreasing [OF inc ok]
      setDesiredOffsets_frame_outside [OF inc ok ab out wf]
    by (rule uncovered_tree_update)
qed

lemma perform_uncovered:
  assumes u: "uncovered tok s"
    and ok: "perform op s = Some (Inr s')"
    and rng: "\<And>a b. declaredRange op = Some (a, b) \<Longrightarrow> a \<le> b \<and> (range0 tok < a \<or> b \<le> range0 tok)"
    and wf: "\<And>f. declaredAnchor op = Some f \<Longrightarrow> range0 f \<le> range1 f"
  shows "uncovered tok s'"
proof (cases op)
  case (SetDesiredOffsets r fromTok off frc)
  obtain a b where r: "r = (a, b)" by (cases r)
  from ok SetDesiredOffsets r have "setDesiredOffsets (a, b) fromTok off frc s = Inr s'" by simp
  from setDesiredOffsets_uncovered [OF u this] rng [of a b] wf SetDesiredOffsets r
  show ?thesis by simp
next
  case (SetDesiredOffset t fromTok off)
  from ok SetDesiredOffset
  have "setDesiredOffsets (range0 t, range1 t) fromTok off False s = Inr s'"
    by (simp add: setDesiredOffset_def)
  from setDesiredOffsets_uncovered [OF u this] rng [of "range0 t" "range1 t"] wf SetDesiredOffset
  show ?thesis by simp
next
  case (MatchIndentOf baseToken offsetToken)
  from ok MatchIndentOf
  have "setDesiredOffsets (range0 offsetToken, range1 offsetToken) (Some baseToken) 0 False s = Inr s'"
    by (simp add: matchIndentOf_def)
  from setDesiredOffsets_uncovered [OF u this] rng [of "range0 offsetToken" "range1 offsetToken"]
    wf MatchIndentOf
  show ?thesis by simp
next
  case (MatchOffsetOf baseToken offsetToken)
  with ok u show ?thesis by (auto simp: matchOffsetOf_def uncovered_def split: if_splits)
next
  case (IgnoreToken t)
  with ok u show ?thesis by (auto simp: ignoreToken_def uncovered_def split: if_splits)
next
  case (GetDesiredIndent t)
  with ok obtain v where g: "getDesiredIndent t s = Some (Inr (v, s'))"
    by (cases "getDesiredIndent t s") (auto simp: map_sum_def split: sum.splits)
  from getDesiredIndent_other_fields [OF g] have "st_tree s' = st_tree s"
    by (metis offsetStorage.select_convs(3) offsetStorage.surjective offsetStorage.update_convs(5))
  with u getDesiredIndent_uncovered [OF g] show ?thesis
    by (simp add: uncovered_def)
qed

lemma runOps_uncovered:
  assumes "runOps ops s = Some (Inr s')" and "uncovered tok s"
    and "\<forall>op \<in> set ops. \<forall>a b. declaredRange op = Some (a, b) \<longrightarrow>
           a \<le> b \<and> (range0 tok < a \<or> b \<le> range0 tok)"
    and "\<forall>op \<in> set ops. \<forall>f. declaredAnchor op = Some f \<longrightarrow> range0 f \<le> range1 f"
  shows "uncovered tok s'"
  using assms
proof (induction ops arbitrary: s)
  case Nil
  then show ?case by simp
next
  case (Cons op ops)
  from Cons.prems(1) obtain s1 where s1: "perform op s = Some (Inr s1)" "runOps ops s1 = Some (Inr s')"
    by (auto split: option.splits sum.splits)
  from Cons.prems(3,4) have "uncovered tok s1"
    by (intro perform_uncovered [OF Cons.prems(2) s1(1)]) auto
  from Cons.IH [OF s1(2) this] Cons.prems(3,4) show ?case by simp
qed

lemma uncovered_initial:
  "0 \<le> range0 tok \<Longrightarrow> uncovered tok (OffsetStorage ti indentSize)"
  by (simp add: uncovered_def OffsetStorage_def insert_bst_def keysIncreasing_def
      descriptorAt_def findLe_def)

lemma uncovered_resolve:
  assumes "uncovered tok s" and "tok \<notin> st_ignoredTokens s"
    and "map_of (st_lockedFirstTokens s) tok = None"
  shows "resolve s tok = Some (Inr 0)"
proof (cases "st_desiredIndentCache s tok")
  case None
  with assms show ?thesis
    by (simp add: uncovered_def resolve_descriptor collapsedOffset_def)
next
  case (Some v)
  with assms have "v = 0" by (simp add: uncovered_def)
  with Some show ?thesis by (simp add: resolve_def getDesiredIndent_cached)
qed

text \<open>
  C8.  Take any run of operations from the initial storage in which every declaration is
  over a range \<open>[a, b]\<close>, \<open>a \<le> b\<close>, that does not cover the start of \<open>t\<close>
  (\<open>t.start < a\<close> or \<open>b \<le> t.start\<close>), the anchors being tokens (start \<open>\<le>\<close> end).  If
  \<open>t\<close> is neither ignored nor locked in the storage reached, the initial descriptor still
  governs \<open>t\<close> and \<^verbatim>\<open>getDesiredIndent(t)\<close> returns 0.
\<close>

theorem default_resolution_zero:
  assumes "runOps ops (OffsetStorage ti indentSize) = Some (Inr s)"
    and "\<forall>op \<in> set ops. \<forall>a b. declaredRange op = Some (a, b) \<longrightarrow>
           a \<le> b \<and> (range0 tok < a \<or> b \<le> range0 tok)"
    and "\<forall>op \<in> set ops. \<forall>f. declaredAnchor op = Some f \<longrightarrow> range0 f \<le> range1 f"
    and "0 \<le> range0 tok"
    and "tok \<notin> st_ignoredTokens s"
    and "map_of (st_lockedFirstTokens s) tok = None"
  shows "descriptorAt (st_tree s) (range0 tok) = Some \<lparr> offset = 0, fromToken = None, force = False \<rparr>
       \<and> resolve s tok = Some (Inr 0)"
proof -
  from runOps_uncovered [OF assms(1) uncovered_initial [OF assms(4)] assms(2,3)]
  have u: "uncovered tok s" .
  then have "descriptorAt (st_tree s) (range0 tok) = Some \<lparr> offset = 0, fromToken = None, force = False \<rparr>"
    by (simp add: uncovered_def)
  with uncovered_resolve [OF u assms(5,6)] show ?thesis by simp
qed

lemma storage0_to_storage2Q:
  "runOps [SetDesiredOffsets (6, 9) (Some tokA) 1 False, GetDesiredIndent tokB]
     (OffsetStorage \<lparr> sourceText = [], firstTokensByLineNumber = Map.empty \<rparr> 4)
   = Some (Inr storage2Q)"
proof -
  have "getDesiredIndent tokA storage2 = Some (Inr (0, cacheSet tokA 0 storage2))"
    by (simp add: indent_eval tree_eval storage_eval storage2_def)
  then have "getDesiredIndent tokB storage2 = Some (Inr (1, storage2Q))"
    by (simp add: indent_eval tree_eval storage_eval storage2_def storage2Q_def)
  with storage0_to_storage2 show ?thesis
    by (simp add: storage0_def [symmetric])
qed

theorem default_resolution_zero_witness:
  "descriptorAt (st_tree storage2Q) (range0 tokA)
     = Some \<lparr> offset = 0, fromToken = None, force = False \<rparr>
   \<and> resolve storage2Q tokA = Some (Inr 0)"
  by (rule default_resolution_zero [OF storage0_to_storage2Q])
     (simp_all add: storage2Q_def storage2_def storage_eval)

section \<open>Ignored tokens and the reporting pass\<close>

lemma ignored_resolves_to_actual_indent:
  assumes "tok \<in> st_ignoredTokens s" and "st_desiredIndentCache s tok = None"
    and "st_indentSize s \<noteq> 0"
  shows "resolve s tok =
     Some (Inr (of_nat (length (getTokenIndent (st_tokenInfo s) tok)) / of_int (st_indentSize s)))"
  using assms by (simp add: resolve_def getDesiredIndent_ignored)

text \<open>
  An ignored first token of a line is not reported when its indentation consists of the
  expected character only (with the exact quotient of the model; JavaScript's is a double).
\<close>

lemma ignored_uniform_not_reported:
  assumes ign: "tok \<in> st_ignoredTokens s" and cache: "st_desiredIndentCache s tok = None"
    and size: "0 < st_indentSize s"
    and first: "firstTokensByLineNumber (st_tokenInfo s) lineNumber = Some tok"
    and line: "loc_start_line tok = lineNumber"
    and uniform: "set (getTokenIndent (st_tokenInfo s) tok)
                    \<subseteq> {if pc_indentType pc = Space then CHR '' '' else CHR 0x09}"
  shows "map_option (map_sum id fst) (checkLine pc lineNumber s) = Some (Inr None)"
proof -
  define ind where "ind = getTokenIndent (st_tokenInfo s) tok"
  define c where "c = (if pc_indentType pc = Space then CHR '' '' else CHR 0x09)"
  define v :: rat where "v = of_nat (length ind) / of_int (st_indentSize s)"
  have g: "getDesiredIndent tok s = Some (Inr (v, cacheSet tok v s))"
    using ign cache size by (simp add: getDesiredIndent_ignored v_def ind_def)
  have "v * of_int (st_indentSize s) = of_nat (length ind)"
    using size by (simp add: v_def)
  then have "js_repeat c (v * of_int (st_indentSize s)) = Inr (replicate (length ind) c)"
    by (simp add: js_repeat_def)
  moreover have "replicate (length ind) c = ind"
    using uniform unfolding ind_def [symmetric] c_def [symmetric]
    by (metis replicate_length_same singletonD subsetD)
  ultimately have "validateTokenIndent (st_tokenInfo (cacheSet tok v s)) (pc_indentType pc)
      (st_indentSize (cacheSet tok v s)) tok v = Inr True"
    by (simp add: validateTokenIndent_def cacheSet_def ind_def c_def)
  with g have "checkIndent pc tok tok s = Some (Inr (True, cacheSet tok v s))"
    by (simp add: checkIndent_def thenDo_def)
  with first line show ?thesis
    by (simp add: checkLine_def thenDo_def)
qed

lemma storageT_eq:
  "storageT = (OffsetStorage tokenInfoT 4)\<lparr> st_ignoredTokens := {tokT} \<rparr>"
  by (simp add: storageT_def ignoreToken_def isFirstTokenOfLine_def getFirstTokenOfLine_def
      OffsetStorage_def tokenInfoT_def tokT_def)

lemma storageT_indent: "getTokenIndent (st_tokenInfo storageT) tokT = [CHR 0x09]"
  by (simp add: storageT_eq OffsetStorage_def tokenInfoT_def getTokenIndent_def js_slice_def tokT_def)

lemma storageT_tokT:
  "getDesiredIndent tokT storageT = Some (Inr (1 / 4, cacheSet tokT (1 / 4) storageT))"
proof -
  have "tokT \<in> st_ignoredTokens storageT" "st_desiredIndentCache storageT tokT = None"
    "st_indentSize storageT = 4"
    by (simp_all add: storageT_eq OffsetStorage_def)
  then show ?thesis
    by (simp add: getDesiredIndent_ignored storageT_indent)
qed

text \<open>
  C7 fails in the code.  Under the configuration of four spaces per level, the ignored
  token \<open>tokT\<close> is the first token of a line indented with one tab.  Its desired indent is
  the length of its indentation over the indent size, a quarter; the expected indentation
  is then one space, which is not the tab found, and the line is reported.
\<close>

theorem ignored_token_reported:
  "isFirstTokenOfLine (st_tokenInfo storageT) tokT
   \<and> tokT \<in> st_ignoredTokens storageT
   \<and> resolve storageT tokT = Some (Inr (1 / 4))
   \<and> map_option (map_sum id fst) (checkLine passT 1 storageT)
       = Some (Inr (Some \<lparr> v_node = tokT, v_neededChars = 1, v_numSpaces = 0, v_numTabs = 1 \<rparr>))"
proof -
  let ?s1 = "cacheSet tokT (1 / 4) storageT"
  have f: "isFirstTokenOfLine (st_tokenInfo storageT) tokT" "tokT \<in> st_ignoredTokens storageT"
    by (simp_all add: storageT_eq OffsetStorage_def tokenInfoT_def isFirstTokenOfLine_def
        getFirstTokenOfLine_def tokT_def)
  have r: "resolve storageT tokT = Some (Inr (1 / 4))"
    by (simp add: resolve_def storageT_tokT)
  have fields: "st_tokenInfo ?s1 = st_tokenInfo storageT" "st_indentSize ?s1 = 4"
    by (simp_all add: cacheSet_def storageT_eq OffsetStorage_def)
  have "validateTokenIndent (st_tokenInfo ?s1) Space (st_indentSize ?s1) tokT (1 / 4) = Inr False"
    by (simp add: fields validateTokenIndent_def storageT_indent js_repeat_def)
  then have c: "checkIndent passT tokT tokT storageT = Some (Inr (False, ?s1))"
    by (simp add: checkIndent_def thenDo_def storageT_tokT passT_def)
  have l: "commentLeniency passT tokT ?s1 = Some (Inr (False, ?s1))"
    by (simp add: commentLeniency_def passT_def)
  have g: "getDesiredIndent tokT ?s1 = Some (Inr (1 / 4, ?s1))"
    by (rule getDesiredIndent_cached) (simp add: cacheSet_def)
  have first: "firstTokensByLineNumber (st_tokenInfo storageT) 1 = Some tokT"
    "loc_start_line tokT = 1"
    by (simp_all add: storageT_eq OffsetStorage_def tokenInfoT_def tokT_def)
  have "report (st_tokenInfo ?s1) (st_indentSize ?s1) tokT (1 / 4)
          = \<lparr> v_node = tokT, v_neededChars = 1, v_numSpaces = 0, v_numTabs = 1 \<rparr>"
    by (simp add: fields report_def storageT_indent)
  with c l g first have
    "map_option (map_sum id fst) (checkLine passT 1 storageT)
       = Some (Inr (Some \<lparr> v_node = tokT, v_neededChars = 1, v_numSpaces = 0, v_numTabs = 1 \<rparr>))"
    by (simp add: checkLine_def thenDo_def)
  with f r show ?thesis by simp
qed

section \<open>Self-reference avoidance\<close>

text \<open>
  Two storages that differ in the tree only resolve a token alike when their trees agree
  at every token that the resolution visits.
\<close>

lemma withTree_lockedIndent:
  "withTree t (lockedIndent tok firstToken lineToken r) = lockedIndent tok firstToken lineToken (withTree t r)"
  by (cases r) (auto simp: withTree_def lockedIndent_def cacheSet_def Let_def)

lemma withTree_offsetIndent:
  "withTree t (offsetIndent tok d r) = offsetIndent tok d (withTree t r)"
  by (cases r) (auto simp: withTree_def offsetIndent_def cacheSet_def Let_def)

lemma getDesiredIndent_tree_change:
  assumes ret: "getDesiredIndent tok s = Some r"
    and closed: "\<And>t u. t \<in> T \<Longrightarrow> dependency s t = Some u \<Longrightarrow> u \<in> T"
    and agree: "\<And>t. t \<in> T \<Longrightarrow> descriptorAt tr (range0 t) = descriptorAt (st_tree s) (range0 t)"
    and tok: "tok \<in> T"
  shows "getDesiredIndent tok (s\<lparr> st_tree := tr \<rparr>) = Some (withTree tr r)"
proof -
  have "s0 = s \<longrightarrow> tok \<in> T \<longrightarrow> getDesiredIndent tok (s\<lparr> st_tree := tr \<rparr>) = Some (withTree tr r)"
    if "getDesiredIndent tok s0 = Some r" for s0
    using that
  proof (induction rule: getDesiredIndent_induct)
    case (cached tok s0 v)
    then show ?case by (auto simp: getDesiredIndent_cached withTree_def)
  next
    case (ignored tok s0)
    then show ?case by (auto simp: getDesiredIndent_ignored withTree_def cacheSet_def)
  next
    case (unlined tok s0 firstToken)
    then show ?case by (auto simp: getDesiredIndent_locked withTree_def)
  next
    case (locked tok s0 firstToken lineToken r')
    show ?case
    proof (intro impI)
      assume s0: "s0 = s" and t: "tok \<in> T"
      from locked.hyps s0 have "dependency s tok = Some lineToken"
        by (simp add: dependency_def)
      from closed [OF t this] locked.IH s0
      have "getDesiredIndent lineToken (s\<lparr> st_tree := tr \<rparr>) = Some (withTree tr r')" by simp
      with locked.hyps s0 show "getDesiredIndent tok (s\<lparr> st_tree := tr \<rparr>)
          = Some (withTree tr (lockedIndent tok firstToken lineToken r'))"
        by (simp add: getDesiredIndent_locked withTree_lockedIndent)
    qed
  next
    case (undescribed tok s0 e)
    show ?case
    proof (intro impI)
      assume s0: "s0 = s" and t: "tok \<in> T"
      from undescribed.hyps(4) agree [OF t] s0
      have "getOffsetDescriptor tok (s\<lparr> st_tree := tr \<rparr>) = Inl e"
        by (auto simp: getOffsetDescriptor_eq split: option.splits)
      with undescribed.hyps s0 show "getDesiredIndent tok (s\<lparr> st_tree := tr \<rparr>) = Some (withTree tr (Inl e))"
        by (simp add: getDesiredIndent_descriptor withTree_def)
    qed
  next
    case (unanchored tok s0 offsetInfo)
    show ?case
    proof (intro impI)
      assume s0: "s0 = s" and t: "tok \<in> T"
      from unanchored.hyps(4) agree [OF t] s0
      have "getOffsetDescriptor tok (s\<lparr> st_tree := tr \<rparr>) = Inr offsetInfo"
        by (auto simp: getOffsetDescriptor_eq split: option.splits)
      with unanchored.hyps s0 show "getDesiredIndent tok (s\<lparr> st_tree := tr \<rparr>)
          = Some (withTree tr (offsetIndent tok offsetInfo (Inr (0, s0))))"
        by (simp add: getDesiredIndent_descriptor withTree_offsetIndent) (simp add: withTree_def)
    qed
  next
    case (anchored tok s0 offsetInfo f r')
    show ?case
    proof (intro impI)
      assume s0: "s0 = s" and t: "tok \<in> T"
      from anchored.hyps(4) agree [OF t] s0
      have d: "getOffsetDescriptor tok (s\<lparr> st_tree := tr \<rparr>) = Inr offsetInfo"
        by (auto simp: getOffsetDescriptor_eq split: option.splits)
      from anchored.hyps s0 have "dependency s tok = Some f"
        by (simp add: dependency_def)
      from closed [OF t this] anchored.IH s0
      have "getDesiredIndent f (s\<lparr> st_tree := tr \<rparr>) = Some (withTree tr r')" by simp
      with anchored.hyps s0 d show "getDesiredIndent tok (s\<lparr> st_tree := tr \<rparr>)
          = Some (withTree tr (offsetIndent tok offsetInfo r'))"
        by (simp add: getDesiredIndent_descriptor withTree_offsetIndent)
    qed
  qed
  with ret tok show ?thesis by simp
qed

lemma dependency_tree_change:
  "descriptorAt tr (range0 t) = descriptorAt (st_tree s) (range0 t) \<Longrightarrow>
   dependency (s\<lparr> st_tree := tr \<rparr>) t = dependency s t"
  by (simp add: dependency_def getOffsetDescriptor_eq split: option.splits)

lemma resolve_withTree: "map_sum id fst (withTree t r) = map_sum id fst r"
  by (cases r) (auto simp: withTree_def)

lemma resolve_tree_change:
  assumes closed: "\<And>t u. t \<in> T \<Longrightarrow> dependency s t = Some u \<Longrightarrow> u \<in> T"
    and agree: "\<And>t. t \<in> T \<Longrightarrow> descriptorAt tr (range0 t) = descriptorAt (st_tree s) (range0 t)"
    and tok: "tok \<in> T"
  shows "resolve (s\<lparr> st_tree := tr \<rparr>) tok = resolve s tok"
proof (cases "getDesiredIndent tok s")
  case (Some r)
  from getDesiredIndent_tree_change [OF Some closed agree tok] Some show ?thesis
    by (simp add: resolve_def resolve_withTree)
next
  case None
  have "getDesiredIndent tok (s\<lparr> st_tree := tr \<rparr>) = None"
  proof (rule ccontr)
    assume "getDesiredIndent tok (s\<lparr> st_tree := tr \<rparr>) \<noteq> None"
    then obtain r' where r': "getDesiredIndent tok (s\<lparr> st_tree := tr \<rparr>) = Some r'" by auto
    have "getDesiredIndent tok (s\<lparr> st_tree := tr \<rparr>\<lparr> st_tree := st_tree s \<rparr>)
            = Some (withTree (st_tree s) r')"
    proof (rule getDesiredIndent_tree_change [OF r' _ _ tok])
      fix t u assume "t \<in> T" and "dependency (s\<lparr> st_tree := tr \<rparr>) t = Some u"
      with closed agree show "u \<in> T" by (simp add: dependency_tree_change)
    next
      fix t assume "t \<in> T"
      with agree show "descriptorAt (st_tree s) (range0 t)
          = descriptorAt (st_tree (s\<lparr> st_tree := tr \<rparr>)) (range0 t)" by simp
    qed
    with None show False by simp
  qed
  with None show ?thesis by (simp add: resolve_def)
qed

lemma resolutionChain_step:
  "resolutionChain s A n = Some t \<Longrightarrow> dependency s t = Some u \<Longrightarrow>
   resolutionChain s A (Suc n) = Some u"
proof (induction n arbitrary: A)
  case 0
  then show ?case by simp
next
  case (Suc n)
  from Suc.prems(1) obtain a' where a': "dependency s A = Some a'" "resolutionChain s a' n = Some t"
    by (auto split: option.splits)
  from Suc.IH [OF a'(2) Suc.prems(2)] a'(1) show ?case by simp
qed

lemma resolutionChain_tree_change:
  assumes closed: "\<And>t u. t \<in> T \<Longrightarrow> dependency s t = Some u \<Longrightarrow> u \<in> T"
    and agree: "\<And>t. t \<in> T \<Longrightarrow> descriptorAt tr (range0 t) = descriptorAt (st_tree s) (range0 t)"
  shows "tok \<in> T \<Longrightarrow> resolutionChain (s\<lparr> st_tree := tr \<rparr>) tok n = resolutionChain s tok n"
proof (induction n arbitrary: tok)
  case 0
  then show ?case by simp
next
  case (Suc n)
  from agree [OF Suc.prems] have d: "dependency (s\<lparr> st_tree := tr \<rparr>) tok = dependency s tok"
    by (rule dependency_tree_change)
  show ?case
  proof (cases "dependency s tok")
    case None
    with d show ?thesis by simp
  next
    case (Some u)
    from closed [OF Suc.prems Some] have "u \<in> T" .
    from Suc.IH [OF this] d Some show ?thesis by simp
  qed
qed

lemma setDesiredOffsets_anchor_descriptor:
  assumes inc: "keysIncreasing (st_tree s)"
    and ok: "setDesiredOffsets (a, b) (Some A) off frc s = Inr s'"
    and A: "a \<le> range0 A" "range0 A < range1 A" "range1 A \<le> b"
  shows "descriptorAt (st_tree s') (range0 A) = descriptorAt (st_tree s) (range0 A)"
proof -
  from setDesiredOffsets_Inr [OF inc ok] obtain tail fd where
    fd: "fromTokenDescriptorOf (a, b) (Some A) s = Inr fd"
    and inc': "keysIncreasing (st_tree s')"
    and m: "map_of (st_tree s') =
         treeMapAfter (map_of (st_tree s)) (a, b)
           \<lparr> offset = off, fromToken = Some A, force = frc \<rparr> fd tail"
    by metis
  from fd A obtain d where d: "fd = Some (A, d)" "descriptorAt (st_tree s) (range0 A) = Some d"
    by (auto simp: fromTokenDescriptorOf_def fromTokenIsInRange_def getOffsetDescriptor_eq
        split: sum.splits option.splits)
  from A have "map_of (st_tree s') (range0 A) = Some d"
    by (simp add: m d treeMapAfter_apply)
  from descriptorAt_key [OF inc' this] d show ?thesis by simp
qed

text \<open>
  C2 (amended).  Let a call \<^verbatim>\<open>setDesiredOffsets([a, b], A, level)\<close> return, the
  anchor \<open>A\<close> lying wholly inside the range, \<open>a \<le> A.start < A.end \<le> b\<close>.  Then the
  descriptor that governs \<open>A\<close> is the one that governed it before.  If, moreover, no
  token that the resolution of \<open>A\<close> visited after \<open>A\<close> before the call starts in
  \<open>[a, b)\<close>, then \<open>A\<close> resolves after the call as before it, along the same chain: the
  call creates no cycle through \<open>A\<close>.
\<close>

theorem anchor_keeps_descriptor:
  assumes "keysIncreasing (st_tree s)"
    and "setDesiredOffsets (a, b) (Some A) off frc s = Inr s'"
    and "a \<le> range0 A" and "range0 A < range1 A" and "range1 A \<le> b"
  shows "descriptorAt (st_tree s') (range0 A) = descriptorAt (st_tree s) (range0 A)
       \<and> ((\<forall>n u. resolutionChain s A (Suc n) = Some u \<longrightarrow> range0 u < a \<or> b \<le> range0 u)
            \<longrightarrow> resolve s' A = resolve s A \<and> resolutionChain s' A = resolutionChain s A)"
proof (intro conjI impI)
  show own: "descriptorAt (st_tree s') (range0 A) = descriptorAt (st_tree s) (range0 A)"
    using assms by (rule setDesiredOffsets_anchor_descriptor)
  assume out: "\<forall>n u. resolutionChain s A (Suc n) = Some u \<longrightarrow> range0 u < a \<or> b \<le> range0 u"
  define T where "T = {t. \<exists>n. resolutionChain s A n = Some t}"
  have ab: "a \<le> b" using assms(3-5) by simp
  have closed: "u \<in> T" if "t \<in> T" "dependency s t = Some u" for t u
    using that resolutionChain_step [of s A _ t u] unfolding T_def by blast
  have agree: "descriptorAt (st_tree s') (range0 t) = descriptorAt (st_tree s) (range0 t)"
    if "t \<in> T" for t
  proof -
    from that obtain n where n: "resolutionChain s A n = Some t" unfolding T_def by blast
    show ?thesis
    proof (cases n)
      case 0
      with n own show ?thesis by simp
    next
      case (Suc m)
      with n out have "range0 t < a \<or> b \<le> range0 t" by blast
      with assms(4) show ?thesis
        by (intro setDesiredOffsets_frame_outside [OF assms(1,2) ab]) auto
    qed
  qed
  have A: "A \<in> T" unfolding T_def by (auto intro: exI [of _ 0])
  have s': "s' = s\<lparr> st_tree := st_tree s' \<rparr>"
    using assms(2) by (rule setDesiredOffsets_other_fields)
  from resolve_tree_change [of T s "st_tree s'" A, OF closed agree A] s'
  show "resolve s' A = resolve s A" by simp
  have "resolutionChain (s\<lparr> st_tree := st_tree s' \<rparr>) A n = resolutionChain s A n" for n
    by (rule resolutionChain_tree_change [of T s "st_tree s'" A, OF closed agree A])
  with s' show "resolutionChain s' A = resolutionChain s A" by (simp add: fun_eq_iff)
qed

lemma storage0_to_storageZ:
  "setDesiredOffsets (2, 5) (Some tokZ) 1 False storage0 = Inr storageZ"
  by (simp add: decl_eval tree_eval storage_eval storageZ_def tokZ_def)

lemma storageZ_to_storageZA:
  "setDesiredOffsets (2, 9) (Some tokA) 1 False storageZ = Inr storageZA"
  by (simp add: decl_eval tree_eval storage_eval storageZ_def storageZA_def tokZ_def)

lemma storageZ_to_storageCyc:
  "setDesiredOffsets (0, 9) (Some tokA) 1 False storageZ = Inr storageCyc"
  by (simp add: decl_eval tree_eval storage_eval storageZ_def storageCyc_def tokZ_def)

lemma storage0_to_storageSelf:
  "setDesiredOffsets (0, 4) (Some tokA) 1 False storage0 = Inr storageSelf"
  by (simp add: decl_eval tree_eval storage_eval storageSelf_def)

lemma storageZ_chain:
  "resolutionChain storageZ tokA (Suc 0) = Some tokZ"
  "resolutionChain storageZ tokA (Suc (Suc n)) = None"
  by (simp_all add: dependency_def getOffsetDescriptor_def tree_eval storage_eval storageZ_def tokZ_def)

theorem anchor_keeps_descriptor_witness:
  "descriptorAt (st_tree storageZA) (range0 tokA) = descriptorAt (st_tree storageZ) (range0 tokA)
   \<and> resolve storageZA tokA = resolve storageZ tokA
   \<and> resolutionChain storageZA tokA = resolutionChain storageZ tokA"
proof -
  have inc: "keysIncreasing (st_tree storageZ)"
    by (simp add: storageZ_def keysIncreasing_def)
  have A: "2 \<le> range0 tokA" "range0 tokA < range1 tokA" "range1 tokA \<le> 9"
    by (simp_all add: tokA_def)
  have "range0 u < 2 \<or> 9 \<le> range0 u" if "resolutionChain storageZ tokA (Suc n) = Some u" for n u
  proof (cases n)
    case 0
    with that have "u = tokZ" using storageZ_chain(1) by (simp del: resolutionChain.simps)
    then show ?thesis by (simp add: tokZ_def)
  next
    case (Suc m)
    with that storageZ_chain(2) [of m] show ?thesis by (simp del: resolutionChain.simps)
  qed
  with anchor_keeps_descriptor [OF inc storageZ_to_storageZA A] show ?thesis by blast
qed

lemma storageZ_tokA: "resolve storageZ tokA = Some (Inr 0)"
proof -
  have "getDesiredIndent tokZ storageZ = Some (Inr (0, cacheSet tokZ 0 storageZ))"
    by (simp add: indent_eval tree_eval storage_eval storageZ_def tokZ_def)
  then show ?thesis
    by (simp add: resolve_def indent_eval tree_eval storage_eval storageZ_def tokZ_def)
qed

lemma storage0_tokA: "resolve storage0 tokA = Some (Inr 0)"
  by (simp add: resolve_def indent_eval tree_eval storage_eval)

lemma storageCyc_fields:
  "st_desiredIndentCache storageCyc t = None"
  "t \<notin> st_ignoredTokens storageCyc"
  "map_of (st_lockedFirstTokens storageCyc) t = None"
  "getOffsetDescriptor tokA storageCyc = Inr \<lparr> offset = 1, fromToken = Some tokZ, force = False \<rparr>"
  "getOffsetDescriptor tokZ storageCyc = Inr \<lparr> offset = 1, fromToken = Some tokA, force = False \<rparr>"
  by (simp_all add: storageCyc_def storage_eval getOffsetDescriptor_def tree_eval tokZ_def)

lemma storageCyc_never_returns:
  "getDesiredIndent tok s = Some r \<Longrightarrow> \<not> (s = storageCyc \<and> (tok = tokA \<or> tok = tokZ))"
proof (induction rule: getDesiredIndent_induct)
  case (anchored tok s offsetInfo f r')
  then show ?case using storageCyc_fields by auto
qed (use storageCyc_fields in auto)

lemma storageSelf_fields:
  "st_desiredIndentCache storageSelf t = None"
  "t \<notin> st_ignoredTokens storageSelf"
  "map_of (st_lockedFirstTokens storageSelf) t = None"
  "getOffsetDescriptor tokA storageSelf = Inr \<lparr> offset = 1, fromToken = Some tokA, force = False \<rparr>"
  by (simp_all add: storageSelf_def storage_eval getOffsetDescriptor_def tree_eval)

lemma storageSelf_never_returns:
  "getDesiredIndent tok s = Some r \<Longrightarrow> \<not> (s = storageSelf \<and> tok = tokA)"
proof (induction rule: getDesiredIndent_induct)
  case (anchored tok s offsetInfo f r')
  then show ?case using storageSelf_fields by auto
qed (use storageSelf_fields in auto)

text \<open>
  C2 as stated fails twice.  First: the anchor \<open>tokA\<close> lies wholly inside the range
  \<open>[0, 9]\<close> and keeps its descriptor, whose anchor \<open>tokZ\<close> starts inside the range too and
  comes under the new descriptor; \<open>tokA\<close> resolved to 0 before the call, and after it the
  two tokens depend on each other and the resolution never returns.  Second: the anchor
  starts inside \<open>[0, 4)\<close> and ends behind it; it is not "in the range" for the code, comes
  under the new descriptor, and depends on itself.
\<close>

theorem self_reference_counterexample:
  "setDesiredOffsets (0, 9) (Some tokA) 1 False storageZ = Inr storageCyc
   \<and> 0 \<le> range0 tokA \<and> range0 tokA < 9
   \<and> resolve storageZ tokA = Some (Inr 0)
   \<and> resolve storageCyc tokA = None
   \<and> setDesiredOffsets (0, 4) (Some tokA) 1 False storage0 = Inr storageSelf
   \<and> range0 tokA < 4
   \<and> descriptorAt (st_tree storage0) (range0 tokA) = Some descInitial
   \<and> descriptorAt (st_tree storageSelf) (range0 tokA)
        = Some \<lparr> offset = 1, fromToken = Some tokA, force = False \<rparr>
   \<and> resolve storage0 tokA = Some (Inr 0)
   \<and> resolve storageSelf tokA = None"
proof -
  have "getDesiredIndent tokA storageCyc = None"
    using storageCyc_never_returns [of tokA storageCyc]
    by (cases "getDesiredIndent tokA storageCyc") auto
  then have c: "resolve storageCyc tokA = None" by (simp add: resolve_def)
  have "getDesiredIndent tokA storageSelf = None"
    using storageSelf_never_returns [of tokA storageSelf]
    by (cases "getDesiredIndent tokA storageSelf") auto
  then have d: "resolve storageSelf tokA = None" by (simp add: resolve_def)
  have e: "descriptorAt (st_tree storage0) (range0 tokA) = Some descInitial"
    "descriptorAt (st_tree storageSelf) (range0 tokA)
        = Some \<lparr> offset = 1, fromToken = Some tokA, force = False \<rparr>"
    by (simp_all add: storage0_tree storageSelf_def tree_eval tokA_def)
  have f: "0 \<le> range0 tokA" "range0 tokA < 9" "range0 tokA < 4"
    by (simp_all add: tokA_def)
  from storageZ_to_storageCyc storage0_to_storageSelf storageZ_tokA storage0_tokA c d e f
  show ?thesis by simp
qed

end
